theory Spec2Isabelle
  imports Complex_Main "HOL-Library.Word" "HOL-Library.Multiset" "HOL-Library.Sublist"
begin

section \<open>Data model of the resource cache\<close>

text \<open>
  The resource cache is the part of \<^verbatim>\<open>MapImpl\<close> kept in \<^verbatim>\<open>MapImpl::Resources\<close>
  (resources.cpp).  Counters that the C++ declares as \<^verbatim>\<open>uint32\<close> are 32-bit words, so
  that \<^verbatim>\<open>+\<close> and \<^verbatim>\<open>-\<close> wrap as they do in the program.
\<close>

type_synonym uint32 = "32 word"

datatype State =
  initializing | downloading | downloaded | ready
  | errorDownload | errorLoad | finalizing

datatype AvailabilityType = negativeType | negativeCode | negativeSize

record Availability =
  avail_type :: AvailabilityType
  avail_mime :: string
  avail_codes :: "int set"
  avail_size :: nat

text \<open>
  One record stands for a \<^verbatim>\<open>Resource\<close> together with its \<^verbatim>\<open>ResourceImpl\<close> (which is
  also the \<^verbatim>\<open>FetchTask\<close> handed to the fetcher): the two objects are in one-to-one
  correspondence and are always reached from one another.  \<open>use_count\<close> is the
  \<^verbatim>\<open>use_count()\<close> of the shared pointer stored in the resource map.
\<close>

record Resource =
  name :: string
  ramMemoryCost :: uint32
  gpuMemoryCost :: uint32
  use_count :: nat
  state :: State
  lastAccessTick :: uint32
  availTest :: "Availability option"
  contentData :: string
  url :: string
  redirectUrl :: string
  contentType :: string
  code :: int
  redirectionsCount :: uint32

text \<open>
  \<open>resources\<close> is the \<^verbatim>\<open>unordered_map\<close> from names to resources, as the list of its
  values in iteration order; the key of an entry is the \<open>name\<close> of the resource.
  The two queues hold raw pointers in the program and names here.  \<open>fetcher\<close> records,
  oldest first, the urls given to \<^verbatim>\<open>fetcher->fetch\<close>, \<open>pending\<close> the names of the tasks
  that the fetcher has been given and has not yet answered, and \<open>cacheFiles\<close> the names
  whose content \<^verbatim>\<open>saveToCache\<close> wrote to the disk cache.
\<close>

record MapImpl =
  resources :: "Resource list"
  prepareQue :: "string list"
  prepareQueNew :: "string list"
  invalidUrl :: "string set"
  invalidUrlNew :: "string set"
  takeItemIndex :: uint32
  downloads :: uint32
  fetcher :: "string list"
  pending :: "string list"
  cacheFiles :: "string set"
  frameIndex :: uint32
  resourcesReleased :: uint32
  maxConcurrentDownloads :: uint32
  maxResourcesMemory :: uint32

text \<open>
  The decoders and the two non-network sources of content are outside the cache; they are
  parameters.  \<open>load r\<close> is \<open>None\<close> when \<^verbatim>\<open>resource->load\<close> throws
  \<^verbatim>\<open>std::runtime_error\<close> and otherwise the RAM and GPU cost of the decoded resource.
\<close>

record Env =
  load :: "Resource \<Rightarrow> (uint32 \<times> uint32) option"
  internalMemory :: "string \<Rightarrow> string"
  cacheContent :: "string \<Rightarrow> string"

datatype exn = invalid_argument | out_of_range

definition findRes :: "string \<Rightarrow> Resource list \<Rightarrow> Resource option" where
  "findRes n rs = find (\<lambda>r. name r = n) rs"

definition storeRes :: "Resource \<Rightarrow> Resource list \<Rightarrow> Resource list" where
  "storeRes r rs = map (\<lambda>x. if name x = name r then r else x) rs"

definition eraseRes :: "string \<Rightarrow> Resource list \<Rightarrow> Resource list" where
  "eraseRes n rs = filter (\<lambda>x. name x \<noteq> n) rs"

text \<open>\<^verbatim>\<open>std::string::find(s) != npos\<close>: \<open>s\<close> occurs in the string.\<close>

fun contains :: "string \<Rightarrow> string \<Rightarrow> bool" where
  "contains [] s = (s = [])"
| "contains (c # cs) s = (prefix s (c # cs) \<or> contains cs s)"

text \<open>\<^verbatim>\<open>resources.fetcher->fetch(task)\<close>: the fetcher is given the task with its url.\<close>

definition fetcherFetch :: "MapImpl \<Rightarrow> Resource \<Rightarrow> MapImpl" where
  "fetcherFetch m r = m\<lparr>fetcher := fetcher m @ [url r], pending := pending m @ [name r]\<rparr>"

section \<open>Completion of a fetch: \<^verbatim>\<open>MapImpl::fetchedFile\<close>\<close>

text \<open>
  The function runs on a resource in state \<open>downloading\<close> whose reply fields
  (\<open>code\<close>, \<open>contentType\<close>, \<open>contentData\<close>, \<open>redirectUrl\<close>) the fetcher has filled in.
  It is modelled in the three steps the source marks with comments, followed by the
  tail that releases the download slot.  A thrown exception is the first component of
  the result; the state reached when it is thrown is kept, as the assignments made
  before a \<^verbatim>\<open>throw\<close> are not undone.
\<close>

definition handleErrorCodes :: "Resource \<Rightarrow> Resource" where
  "handleErrorCodes r =
     (if code r \<ge> 400 \<or> code r = 0 then r\<lparr>state := errorDownload\<rparr> else r)"

text \<open>
  The \<^verbatim>\<open>switch\<close> over the availability type: the cases \<open>negativeCode\<close> and
  \<open>negativeType\<close> end in \<^verbatim>\<open>break\<close>; the case \<open>negativeSize\<close> has none and runs on
  into \<^verbatim>\<open>default: throw std::invalid_argument\<close>.
\<close>

definition availabilityTests :: "Resource \<Rightarrow> exn option \<times> Resource" where
  "availabilityTests r =
     (case availTest r of
        None \<Rightarrow> (None, r)
      | Some a \<Rightarrow>
          if state r \<noteq> downloading then (None, r)
          else (case avail_type a of
              negativeCode \<Rightarrow>
                (None, if code r \<notin> avail_codes a then r\<lparr>state := errorDownload\<rparr> else r)
            | negativeType \<Rightarrow>
                (None, if avail_mime a = contentType r then r\<lparr>state := errorDownload\<rparr> else r)
            | negativeSize \<Rightarrow>
                (Some invalid_argument,
                 if length (contentData r) \<le> avail_size a
                 then r\<lparr>state := errorDownload\<rparr> else r)))"

definition isRedirection :: "int \<Rightarrow> bool" where
  "isRedirection c = (c = 301 \<or> c = 302 \<or> c = 303 \<or> c = 307 \<or> c = 308)"

text \<open>Lines 250 to 262: release the slot, then blacklist or save and accept.\<close>

definition fetchedFile_finish :: "MapImpl \<Rightarrow> Resource \<Rightarrow> MapImpl \<times> Resource" where
  "fetchedFile_finish m r =
     (let m1 = m\<lparr>downloads := downloads m - 1\<rparr> in
      if state r = errorDownload
      then (m1\<lparr>invalidUrlNew := insert (name r) (invalidUrlNew m1)\<rparr>, r\<lparr>contentData := []\<rparr>)
      else (m1\<lparr>cacheFiles := insert (name r) (cacheFiles m1)\<rparr>, r\<lparr>state := downloaded\<rparr>))"

text \<open>
  \<^verbatim>\<open>if (task->redirectionsCount++ > 5)\<close> compares the old value of the counter and
  increments it on both branches.
\<close>

definition handleRedirections :: "MapImpl \<Rightarrow> Resource \<Rightarrow> MapImpl \<times> Resource" where
  "handleRedirections m r =
     (if state r = downloading \<and> isRedirection (code r) then
        (if redirectionsCount r > 5
         then fetchedFile_finish m
                (r\<lparr>redirectionsCount := redirectionsCount r + 1, state := errorDownload\<rparr>)
         else (let r1 = r\<lparr>redirectionsCount := redirectionsCount r + 1, url := redirectUrl r\<rparr>
               in (fetcherFetch m r1, r1)))
      else fetchedFile_finish m r)"

definition fetchedFile :: "MapImpl \<Rightarrow> Resource \<Rightarrow> exn option \<times> MapImpl \<times> Resource" where
  "fetchedFile m r =
     (case availabilityTests (handleErrorCodes r) of
        (Some e, r1) \<Rightarrow> (Some e, m, r1)
      | (None, r1) \<Rightarrow> (None, handleRedirections m r1))"

text \<open>The reply of the fetcher, written into the task before the callback runs.\<close>

definition reply :: "int \<Rightarrow> string \<Rightarrow> string \<Rightarrow> string \<Rightarrow> Resource \<Rightarrow> Resource" where
  "reply c ct cd ru r = r\<lparr>code := c, contentType := ct, contentData := cd, redirectUrl := ru\<rparr>"

section \<open>The data thread: \<^verbatim>\<open>MapImpl::loadResource\<close> and \<^verbatim>\<open>MapImpl::dataTick\<close>\<close>

definition loadResource :: "Env \<Rightarrow> Resource \<Rightarrow> Resource" where
  "loadResource env r =
     (case load env r of
        Some (ram, gpu) \<Rightarrow>
          r\<lparr>ramMemoryCost := ram, gpuMemoryCost := gpu, state := ready, contentData := []\<rparr>
      | None \<Rightarrow> r\<lparr>state := errorLoad, contentData := []\<rparr>)"

definition syncInvalidUrls :: "MapImpl \<Rightarrow> MapImpl" where
  "syncInvalidUrls m = m\<lparr>invalidUrl := invalidUrl m \<union> invalidUrlNew m, invalidUrlNew := {}\<rparr>"

text \<open>
  \<^verbatim>\<open>std::next(prepareQue.begin(), takeItemIndex++ % prepareQue.size())\<close>, then
  \<^verbatim>\<open>erase\<close>; the index is only advanced when the queue is not empty.
\<close>

definition takeItem :: "MapImpl \<Rightarrow> string option \<times> MapImpl" where
  "takeItem m =
     (if prepareQue m = [] then (None, m)
      else let i = unat (takeItemIndex m) mod length (prepareQue m) in
        (Some (prepareQue m ! i),
         m\<lparr>takeItemIndex := takeItemIndex m + 1,
           prepareQue := take i (prepareQue m) @ drop (Suc i) (prepareQue m)\<rparr>))"

text \<open>The text after the first \<^verbatim>\<open>://\<close> of a string in which it occurs.\<close>

fun afterScheme :: "string \<Rightarrow> string" where
  "afterScheme [] = []"
| "afterScheme (c # cs) =
     (if prefix ''://'' (c # cs) then drop 3 (c # cs) else afterScheme cs)"

text \<open>
  \<^verbatim>\<open>convertNameToCache\<close> takes the text \<open>a\<close> after the first \<^verbatim>\<open>://\<close> of the name, or the
  whole name when there is none, its parent path \<open>b\<close> and the rest
  \<^verbatim>\<open>a.substr(b.length() + 1)\<close>.  The parent path of a path that is not empty is shorter
  than the path, so that \<^verbatim>\<open>substr\<close> throws \<^verbatim>\<open>std::out_of_range\<close> exactly when \<open>a\<close> is
  empty: for a name with \<^verbatim>\<open>://\<close>, when the name ends with its first \<^verbatim>\<open>://\<close>.  Otherwise the
  result is the path of the cache file, which is identified here by the name it belongs
  to.
\<close>

definition convertNameToCache :: "string \<Rightarrow> exn + string" where
  "convertNameToCache path =
     (let a = (if contains path ''://'' then afterScheme path else path)
      in if a = [] then Inl out_of_range else Inr path)"

text \<open>
  \<^verbatim>\<open>availableInCache\<close> asks the file system for the cache path of the name; the exception
  of \<^verbatim>\<open>convertNameToCache\<close> passes through it.
\<close>

definition availableInCache :: "MapImpl \<Rightarrow> string \<Rightarrow> exn + bool" where
  "availableInCache m n =
     (case convertNameToCache n of
        Inl e \<Rightarrow> Inl e
      | Inr path \<Rightarrow> Inr (path \<in> cacheFiles m))"

text \<open>
  The body of \<^verbatim>\<open>dataTick\<close> once a resource \<open>r\<close> has been taken from the queue.  The
  first component is the return value (\<open>Inr True\<close>: sleep) or the exception that leaves
  the function.  The state is set to \<open>downloading\<close> before the cache is asked, so that an
  exception of \<^verbatim>\<open>availableInCache\<close> leaves the resource in that state, with no fetch
  issued.  \<^verbatim>\<open>availableInCache\<close> is called only for a name without \<^verbatim>\<open>.json\<close>, the second
  operand of \<^verbatim>\<open>&&\<close>.  The counters of \<^verbatim>\<open>statistics\<close> that the functions only increment,
  the log and the assertions are left out.
\<close>

definition dataTick_res ::
  "Env \<Rightarrow> MapImpl \<Rightarrow> Resource \<Rightarrow> (exn + bool) \<times> MapImpl \<times> Resource" where
  "dataTick_res env m r =
     (if state r = downloaded then (Inr False, m, loadResource env r)
      else if state r = initializing then
        (if name r \<in> invalidUrl m then (Inr False, m, r\<lparr>state := errorLoad\<rparr>)
         else let r1 = r\<lparr>state := downloading\<rparr> in
           if \<not> contains (name r1) ''://''
           then (Inr False, m,
                 loadResource env (r1\<lparr>contentData := internalMemory env (name r1)\<rparr>))
           else
             (case (if contains (name r1) ''.json'' then Inr False
                    else availableInCache m (name r1)) of
                Inl e \<Rightarrow> (Inl e, m, r1)
              | Inr True \<Rightarrow>
                  (Inr False, m,
                   loadResource env (r1\<lparr>contentData := cacheContent env (name r1)\<rparr>))
              | Inr False \<Rightarrow>
                  if downloads m < maxConcurrentDownloads m
                  then (Inr False, (fetcherFetch m r1)\<lparr>downloads := downloads m + 1\<rparr>, r1)
                  else (Inr True, m, r1\<lparr>state := initializing\<rparr>)))
      else (Inr True, m, r))"

text \<open>
  A queued pointer always refers to a resource of the map; the case \<open>None\<close> of the
  lookup stands for a pointer that does not, and leaves the state as it is.
\<close>

definition dataTick :: "Env \<Rightarrow> MapImpl \<Rightarrow> (exn + bool) \<times> MapImpl" where
  "dataTick env m =
     (case takeItem (syncInvalidUrls m) of
        (None, m1) \<Rightarrow> (Inr True, m1)
      | (Some n, m1) \<Rightarrow>
          (case findRes n (resources m1) of
             None \<Rightarrow> (Inr True, m1)
           | Some r \<Rightarrow>
               (case dataTick_res env m1 r of
                  (b, m2, r') \<Rightarrow> (b, m2\<lparr>resources := storeRes r' (resources m2)\<rparr>))))"

text \<open>
  The fetcher's callback on the resource named \<open>n\<close>, the result written back.  The
  fetcher answers a task it has been given, once, and the task is then no longer
  pending; the resource is in state \<open>downloading\<close>, which \<^verbatim>\<open>fetchedFile\<close> asserts at its
  head.  For any other name nothing happens.
\<close>

definition fetched :: "MapImpl \<Rightarrow> string \<Rightarrow> int \<Rightarrow> string \<Rightarrow> string \<Rightarrow> string
    \<Rightarrow> exn option \<times> MapImpl" where
  "fetched m n c ct cd ru =
     (case findRes n (resources m) of
        None \<Rightarrow> (None, m)
      | Some r \<Rightarrow>
          if state r \<noteq> downloading \<or> n \<notin> set (pending m) then (None, m)
          else (case fetchedFile (m\<lparr>pending := remove1 n (pending m)\<rparr>)
                       (reply c ct cd ru r) of
                  (e, m1, r') \<Rightarrow> (e, m1\<lparr>resources := storeRes r' (resources m1)\<rparr>)))"

section \<open>The render thread: \<^verbatim>\<open>touchResource\<close>, \<^verbatim>\<open>getMapResource\<close>, \<^verbatim>\<open>dataRenderTick\<close>\<close>

text \<open>
  \<^verbatim>\<open>prepareQueNew\<close> is a \<^verbatim>\<open>std::set\<close>: inserting an element that is present changes
  nothing.  The set is ordered by the addresses of the resources; the list keeps the
  elements in the order of their insertion, the latest first.
\<close>

definition touch :: "uint32 \<Rightarrow> Resource \<Rightarrow> Resource" where
  "touch fi r =
     (let r1 = r\<lparr>lastAccessTick := fi\<rparr> in
      if state r1 = finalizing then r1\<lparr>state := initializing\<rparr> else r1)"

definition touchResource :: "MapImpl \<Rightarrow> string \<Rightarrow> MapImpl" where
  "touchResource m n =
     (case findRes n (resources m) of
        None \<Rightarrow> m
      | Some r \<Rightarrow>
          let r1 = touch (frameIndex m) r;
              m1 = m\<lparr>resources := storeRes r1 (resources m)\<rparr>
          in if state r1 = initializing \<or> state r1 = downloaded
             then m1\<lparr>prepareQueNew := List.insert n (prepareQueNew m1)\<rparr>
             else m1)"

text \<open>
  Modelled from the spec: the constructors of \<^verbatim>\<open>Resource\<close> and \<^verbatim>\<open>ResourceImpl\<close> are not
  in the sources.  A resource is created in state \<open>initializing\<close>, the first state of the
  progression of section 4.3, with no content, no cost and no redirection followed; its
  url is its name.
\<close>

definition newResource :: "string \<Rightarrow> Resource" where
  "newResource n =
     \<lparr>name = n, ramMemoryCost = 0, gpuMemoryCost = 0, use_count = 1,
      state = initializing, lastAccessTick = 0, availTest = None, contentData = [],
      url = n, redirectUrl = [], contentType = [], code = 0, redirectionsCount = 0\<rparr>"

definition getMapResource :: "MapImpl \<Rightarrow> string \<Rightarrow> MapImpl" where
  "getMapResource m n =
     (case findRes n (resources m) of
        None \<Rightarrow> touchResource (m\<lparr>resources := resources m @ [newResource n]\<rparr>) n
      | Some r \<Rightarrow> touchResource m n)"

text \<open>The comparison given to \<^verbatim>\<open>std::sort\<close> in \<^verbatim>\<open>dataRenderTick\<close>.\<close>

definition evictBefore :: "Resource \<Rightarrow> Resource \<Rightarrow> bool" where
  "evictBefore a b =
     (if lastAccessTick a = lastAccessTick b
      then gpuMemoryCost a + ramMemoryCost a > gpuMemoryCost b + ramMemoryCost b
      else lastAccessTick a < lastAccessTick b)"

text \<open>
  \<^verbatim>\<open>std::sort\<close> with a comparison \<open>precedes\<close>, as an insertion sort.  The library leaves
  the order of elements that the comparison does not separate open; here they keep the
  order they had, as they do when the library sorts a short range by insertion.
\<close>

fun std_insert :: "('a \<Rightarrow> 'a \<Rightarrow> bool) \<Rightarrow> 'a \<Rightarrow> 'a list \<Rightarrow> 'a list" where
  "std_insert precedes x [] = [x]"
| "std_insert precedes x (y # ys) =
     (if precedes y x then y # std_insert precedes x ys else x # y # ys)"

fun std_sort :: "('a \<Rightarrow> 'a \<Rightarrow> bool) \<Rightarrow> 'a list \<Rightarrow> 'a list" where
  "std_sort precedes [] = []"
| "std_sort precedes (x # xs) = std_insert precedes x (std_sort precedes xs)"

text \<open>The test that puts a resource on the list \<^verbatim>\<open>res\<close> of eviction candidates.\<close>

definition evictable :: "uint32 \<Rightarrow> Resource \<Rightarrow> bool" where
  "evictable fi r =
     (lastAccessTick r + 100 < fi \<and> use_count r = 1 \<and> state r \<noteq> downloading)"

definition memRamUse :: "Resource list \<Rightarrow> uint32" where
  "memRamUse rs = foldl (\<lambda>s r. s + ramMemoryCost r) 0 rs"

definition memGpuUse :: "Resource list \<Rightarrow> uint32" where
  "memGpuUse rs = foldl (\<lambda>s r. s + gpuMemoryCost r) 0 rs"

text \<open>
  The loop over the sorted candidates.  Each candidate is on the list once and the loop
  changes nothing but the candidate it visits, so the fields read through the pointer
  \<open>it\<close> are those the candidate had when the list was built.
\<close>

fun evictLoop :: "Resource list \<Rightarrow> uint32 \<Rightarrow> MapImpl \<Rightarrow> MapImpl" where
  "evictLoop [] memUse m = m"
| "evictLoop (it # res) memUse m =
     (if memUse \<le> maxResourcesMemory m then m
      else let memUse1 = memUse - (gpuMemoryCost it + ramMemoryCost it) in
        if state it \<noteq> finalizing
        then evictLoop res memUse1
               (m\<lparr>resources := storeRes (it\<lparr>state := finalizing\<rparr>) (resources m)\<rparr>)
        else evictLoop res memUse1
               (m\<lparr>resourcesReleased := resourcesReleased m + 1,
                  resources := eraseRes (name it) (resources m)\<rparr>))"

definition candidates :: "MapImpl \<Rightarrow> Resource list" where
  "candidates m = std_sort evictBefore (filter (evictable (frameIndex m)) (resources m))"

definition memUseOf :: "MapImpl \<Rightarrow> uint32" where
  "memUseOf m = memRamUse (resources m) + memGpuUse (resources m)"

definition dataRenderTick :: "MapImpl \<Rightarrow> MapImpl" where
  "dataRenderTick m =
     (let m1 = m\<lparr>prepareQue := prepareQueNew m, prepareQueNew := []\<rparr> in
      if memUseOf m1 > maxResourcesMemory m1
      then evictLoop (candidates m1) (memUseOf m1) m1
      else m1)"

text \<open>
  The candidates the loop visits before it stops: it leaves at the first candidate at
  which the accounted use is within the budget.
\<close>

fun visited :: "uint32 \<Rightarrow> Resource list \<Rightarrow> uint32 \<Rightarrow> Resource list" where
  "visited mx [] memUse = []"
| "visited mx (it # res) memUse =
     (if memUse \<le> mx then []
      else it # visited mx res (memUse - (gpuMemoryCost it + ramMemoryCost it)))"

section \<open>Runs of the cache\<close>

text \<open>
  The operations that act on the cache.  \<open>Frame f\<close> is the render loop setting the frame
  counter and \<open>Hold n k\<close> a holder outside the cache taking or dropping references to
  the resource \<open>n\<close>; both happen outside the functions above.  When an exception leaves
  \<^verbatim>\<open>dataTick\<close> or \<^verbatim>\<open>fetchedFile\<close>, the cache is in the state reached at the \<^verbatim>\<open>throw\<close>, and
  the run goes on from there.
\<close>

datatype Op =
  DataTick
  | Fetched string int string string string
  | Touch string
  | Get string
  | RenderTick
  | Frame uint32
  | Hold string nat

fun exec :: "Env \<Rightarrow> Op \<Rightarrow> MapImpl \<Rightarrow> MapImpl" where
  "exec env DataTick m = snd (dataTick env m)"
| "exec env (Fetched n c ct cd ru) m = snd (fetched m n c ct cd ru)"
| "exec env (Touch n) m = touchResource m n"
| "exec env (Get n) m = getMapResource m n"
| "exec env RenderTick m = dataRenderTick m"
| "exec env (Frame f) m = m\<lparr>frameIndex := f\<rparr>"
| "exec env (Hold n k) m =
     m\<lparr>resources := map (\<lambda>r. if name r = n then r\<lparr>use_count := k\<rparr> else r) (resources m)\<rparr>"

text \<open>
  The cache as \<^verbatim>\<open>MapImpl::Resources::Resources\<close> builds it: no resource, empty queues,
  \<open>takeItemIndex\<close> and \<open>downloads\<close> zero.  The blacklist read from disk, the files of the
  disk cache and the two options are parameters.
\<close>

definition initial :: "string set \<Rightarrow> string set \<Rightarrow> uint32 \<Rightarrow> uint32 \<Rightarrow> MapImpl" where
  "initial bl files mcd mrm =
     \<lparr>resources = [], prepareQue = [], prepareQueNew = [], invalidUrl = bl,
      invalidUrlNew = {}, takeItemIndex = 0, downloads = 0, fetcher = [], pending = [],
      cacheFiles = files, frameIndex = 0, resourcesReleased = 0,
      maxConcurrentDownloads = mcd, maxResourcesMemory = mrm\<rparr>"

inductive reachable :: "Env \<Rightarrow> MapImpl \<Rightarrow> MapImpl \<Rightarrow> bool" for env :: Env and m0 :: MapImpl where
  start: "reachable env m0 m0"
| step: "reachable env m0 m \<Longrightarrow> reachable env m0 (exec env op m)"

definition stateOf :: "MapImpl \<Rightarrow> string \<Rightarrow> State option" where
  "stateOf m n = map_option state (findRes n (resources m))"

text \<open>The number of downloads in flight: the tasks given to the fetcher and not answered.\<close>

definition inFlight :: "MapImpl \<Rightarrow> nat" where
  "inFlight m = length (pending m)"

section \<open>Traversal of one node: \<^verbatim>\<open>MapImpl::traverse\<close>\<close>

datatype TraverseMode = Hierarchical | Flat

text \<open>
  A traverse node as \<^verbatim>\<open>traverse\<close> reads it.  \<open>meta\<close> is \<open>None\<close> while the metadata is
  unresolved and otherwise tells whether \<^verbatim>\<open>meta->surface\<close> is set; \<open>renders\<close> lists the
  draw tasks of the node, each by whether its resources are ready.
\<close>

datatype TraverseNode = TraverseNode
  (nodeId: nat)
  (meta: "bool option")
  (renders: "bool list")
  (childs: "TraverseNode list")

text \<open>
  Modelled from the spec: \<^verbatim>\<open>TraverseNode::ready\<close> is not in the sources; a node is
  ready when its draws are all ready.
\<close>

definition node_ready :: "TraverseNode \<Rightarrow> bool" where
  "node_ready t = list_all (\<lambda>task. task) (renders t)"

text \<open>
  Metadata and draw resolution and the two view tests work on coordinates, resources and
  the camera; \<^verbatim>\<open>traverse\<close> only branches on their results, which are parameters.
  \<open>travDetermineMeta\<close> gives \<open>None\<close> when the C++ function returns false and the updated
  node otherwise; \<open>travDetermineDraws\<close> gives the updated node.
\<close>

record TravEnv =
  travDetermineMeta :: "TraverseNode \<Rightarrow> TraverseNode option"
  travDetermineDraws :: "TraverseNode \<Rightarrow> TraverseNode"
  visibilityTest :: "TraverseNode \<Rightarrow> bool"
  coarsenessTest :: "TraverseNode \<Rightarrow> bool"

text \<open>
  What one call does: the nodes given to \<^verbatim>\<open>renderNode\<close> and the pairs placed on
  \<^verbatim>\<open>renderer.traverseQueue\<close>, in order.  The statistics, the access time of the node,
  the touching of its draws and the priorities given to the children have no part in
  either and are left out.
\<close>

record Traversal =
  rendered :: "TraverseNode list"
  queued :: "(TraverseNode \<times> bool) list"

text \<open>One round of the loop that computes \<^verbatim>\<open>ok\<close> leaves it true for this child.\<close>

definition childOk :: "TraverseNode \<Rightarrow> bool" where
  "childOk t =
     (case meta t of
        None \<Rightarrow> False
      | Some surface \<Rightarrow> \<not> (surface \<and> (renders t = [] \<or> \<not> node_ready t)))"

definition resolveDraws :: "TravEnv \<Rightarrow> TraverseNode \<Rightarrow> TraverseNode" where
  "resolveDraws env trav =
     (if meta trav = Some True \<and> renders trav = [] then travDetermineDraws env trav else trav)"

definition traverseHierarchical :: "TravEnv \<Rightarrow> TraverseNode \<Rightarrow> bool \<Rightarrow> Traversal" where
  "traverseHierarchical env trav0 loadOnly =
     (let trav = resolveDraws env trav0 in
      if \<not> visibilityTest env trav then \<lparr>rendered = [], queued = []\<rparr>
      else if coarsenessTest env trav
      then \<lparr>rendered = (if \<not> loadOnly then [trav] else []), queued = []\<rparr>
      else
        let fallback = (\<not> loadOnly \<and> \<not> list_all childOk (childs trav));
            loadOnly1 = (loadOnly \<or> fallback)
        in if childs trav \<noteq> []
           then \<lparr>rendered = (if fallback then [trav] else []),
                 queued = map (\<lambda>t. (t, loadOnly1)) (childs trav)\<rparr>
           else \<lparr>rendered = (if fallback then [trav] else [])
                             @ (if \<not> loadOnly1 then [trav] else []),
                 queued = []\<rparr>)"

definition traverseFlat :: "TravEnv \<Rightarrow> TraverseNode \<Rightarrow> bool \<Rightarrow> Traversal" where
  "traverseFlat env trav loadOnly =
     (if \<not> visibilityTest env trav then \<lparr>rendered = [], queued = []\<rparr>
      else if coarsenessTest env trav \<or> childs trav = []
      then \<lparr>rendered = (if \<not> loadOnly then [resolveDraws env trav] else []), queued = []\<rparr>
      else \<lparr>rendered = [], queued = map (\<lambda>t. (t, loadOnly)) (childs trav)\<rparr>)"

definition traverse :: "TravEnv \<Rightarrow> TraverseMode \<Rightarrow> TraverseNode \<Rightarrow> bool \<Rightarrow> Traversal" where
  "traverse env mode trav loadOnly =
     (case (if meta trav = None then travDetermineMeta env trav else Some trav) of
        None \<Rightarrow> \<lparr>rendered = [], queued = []\<rparr>
      | Some trav1 \<Rightarrow>
          (case mode of
             Hierarchical \<Rightarrow> traverseHierarchical env trav1 loadOnly
           | Flat \<Rightarrow> traverseFlat env trav1 loadOnly))"

section \<open>Order of the opaque draws: \<^verbatim>\<open>CameraImpl::renderUpdate\<close>\<close>

text \<open>
  The coordinates are \<^verbatim>\<open>double\<close> values: a real number that the format represents, an
  infinity, or a NaN.  The two zeros are one value here; they compare equal and none of
  the operations below tells them apart.
\<close>

datatype double = Finite real | PlusInf | MinusInf | NaN

text \<open>
  Rounding of a real number to \<^verbatim>\<open>double\<close> (IEEE 754 binary64, to nearest, ties to even):
  the significand has 53 bits, the least exponent is \<open>-1022\<close>, and a result of magnitude
  \<open>2^1024\<close> or more overflows to an infinity.  \<open>binade x\<close> is the exponent \<open>e\<close> of the
  representation of \<open>x\<close>, the greatest with \<open>2^e \<le> \<bar>x\<bar>\<close> and not below \<open>-1022\<close>; it need
  not be known beyond 1024, where the result is an infinity in any case.
\<close>

definition binade :: "real \<Rightarrow> int" where
  "binade x = Max (set (- 1022 # filter (\<lambda>e. 2 powi e \<le> \<bar>x\<bar>) [- 1022..1024]))"

definition roundEven :: "real \<Rightarrow> int" where
  "roundEven q =
     (let f = \<lfloor>q\<rfloor> in
      if q - of_int f < 1 / 2 then f
      else if 1 / 2 < q - of_int f then f + 1
      else if even f then f else f + 1)"

definition roundDouble :: "real \<Rightarrow> double" where
  "roundDouble x =
     (if x = 0 then Finite 0
      else let e = binade x;
               ulp = 2 powi (e - 52);
               y = of_int (roundEven (x / ulp)) * ulp
           in if 2 powi 1024 \<le> \<bar>y\<bar> then (if 0 < x then PlusInf else MinusInf)
              else Finite y)"

text \<open>
  The operations \<^verbatim>\<open>+\<close>, \<^verbatim>\<open>-\<close>, \<^verbatim>\<open>*\<close>, \<^verbatim>\<open><\<close> and \<^verbatim>\<open><=\<close> of \<^verbatim>\<open>double\<close>.  A NaN operand gives NaN,
  as do the difference of equal infinities and the product of zero and an infinity; a
  comparison with a NaN operand is false.
\<close>

fun dneg :: "double \<Rightarrow> double" where
  "dneg (Finite x) = Finite (- x)"
| "dneg PlusInf = MinusInf"
| "dneg MinusInf = PlusInf"
| "dneg NaN = NaN"

fun dadd :: "double \<Rightarrow> double \<Rightarrow> double" where
  "dadd (Finite x) (Finite y) = roundDouble (x + y)"
| "dadd NaN b = NaN"
| "dadd a NaN = NaN"
| "dadd PlusInf MinusInf = NaN"
| "dadd MinusInf PlusInf = NaN"
| "dadd PlusInf b = PlusInf"
| "dadd MinusInf b = MinusInf"
| "dadd (Finite x) b = b"

definition dsub :: "double \<Rightarrow> double \<Rightarrow> double" where
  "dsub a b = dadd a (dneg b)"

fun dmul :: "double \<Rightarrow> double \<Rightarrow> double" where
  "dmul (Finite x) (Finite y) = roundDouble (x * y)"
| "dmul NaN b = NaN"
| "dmul a NaN = NaN"
| "dmul (Finite x) b = (if x = 0 then NaN else if 0 < x then b else dneg b)"
| "dmul a (Finite y) = (if y = 0 then NaN else if 0 < y then a else dneg a)"
| "dmul a b = (if a = b then PlusInf else MinusInf)"

fun dless :: "double \<Rightarrow> double \<Rightarrow> bool" where
  "dless (Finite x) (Finite y) = (x < y)"
| "dless (Finite x) PlusInf = True"
| "dless MinusInf (Finite y) = True"
| "dless MinusInf PlusInf = True"
| "dless a b = False"

fun dle :: "double \<Rightarrow> double \<Rightarrow> bool" where
  "dle (Finite x) (Finite y) = (x \<le> y)"
| "dle (Finite x) PlusInf = True"
| "dle MinusInf (Finite y) = True"
| "dle MinusInf PlusInf = True"
| "dle MinusInf MinusInf = True"
| "dle PlusInf PlusInf = True"
| "dle a b = False"

type_synonym vec3 = "double \<times> double \<times> double"

text \<open>
  Modelled from the spec: the vector helpers \<^verbatim>\<open>rawToVec3\<close> and \<^verbatim>\<open>dot\<close> are not in the
  sources.  \<^verbatim>\<open>rawToVec3\<close> reads three coordinates; the difference of two vectors is taken
  coordinate by coordinate, and \<^verbatim>\<open>dot\<close> is the sum of the three products, added from the
  left.
\<close>

definition sub3 :: "vec3 \<Rightarrow> vec3 \<Rightarrow> vec3" where
  "sub3 a b =
     (case a of (ax, ay, az) \<Rightarrow> case b of (bx, by, bz) \<Rightarrow> (dsub ax bx, dsub ay by, dsub az bz))"

definition dot :: "vec3 \<Rightarrow> vec3 \<Rightarrow> double" where
  "dot a b =
     (case a of (ax, ay, az) \<Rightarrow> case b of (bx, by, bz) \<Rightarrow>
        dadd (dadd (dmul ax bx) (dmul ay by)) (dmul az bz))"

text \<open>
  The centre of a task is kept in three \<^verbatim>\<open>float\<close>s and the comparison casts them to
  \<^verbatim>\<open>double\<close>, which changes no value; \<open>center\<close> holds them after the cast.
\<close>

record DrawSurfaceTask =
  center :: vec3
  mesh :: nat

record CameraImpl =
  mapconfigReady :: bool
  windowWidth :: uint32
  windowHeight :: uint32
  eye :: vec3
  draws_camera_eye :: vec3
  draws_opaque :: "DrawSurfaceTask list"

text \<open>The comparison given to \<^verbatim>\<open>std::sort\<close> in \<^verbatim>\<open>sortOpaqueFrontToBack\<close>.\<close>

definition opaqueBefore :: "vec3 \<Rightarrow> DrawSurfaceTask \<Rightarrow> DrawSurfaceTask \<Rightarrow> bool" where
  "opaqueBefore e a b =
     (let va = sub3 (center a) e; vb = sub3 (center b) e in dless (dot va va) (dot vb vb))"

definition sortOpaqueFrontToBack :: "CameraImpl \<Rightarrow> CameraImpl" where
  "sortOpaqueFrontToBack c =
     c\<lparr>draws_opaque := std_sort (opaqueBefore (draws_camera_eye c)) (draws_opaque c)\<rparr>"

text \<open>
  Modelled from the spec: \<^verbatim>\<open>CameraDraws::clear\<close> is not in the sources; draw tasks are
  discarded each frame, so \<^verbatim>\<open>clear\<close> leaves the list of opaque tasks empty.
\<close>

definition clear :: "CameraImpl \<Rightarrow> CameraImpl" where
  "clear c = c\<lparr>draws_opaque := []\<rparr>"

text \<open>
  \<open>nav\<close> is the new eye position that \<^verbatim>\<open>updateNavigation\<close> computes and \<open>trav\<close> the
  opaque tasks that the traversal of the layers appends.  The matrices, the culling
  planes, the infographics of the detached camera and the credits are left out; the
  list of opaque tasks does not depend on them once \<open>trav\<close> is given.
\<close>

definition renderUpdate ::
  "(vec3 \<Rightarrow> vec3) \<Rightarrow> (CameraImpl \<Rightarrow> DrawSurfaceTask list) \<Rightarrow> CameraImpl \<Rightarrow> CameraImpl" where
  "renderUpdate nav trav c =
     (let c1 = clear c in
      if \<not> mapconfigReady c1 then c1
      else let c2 = c1\<lparr>eye := nav (eye c1)\<rparr> in
        if windowWidth c2 = 0 \<or> windowHeight c2 = 0 then c2
        else let c3 = c2\<lparr>draws_camera_eye := eye c2\<rparr>;
                 c4 = c3\<lparr>draws_opaque := draws_opaque c3 @ trav c3\<rparr>
             in sortOpaqueFrontToBack c4)"

text \<open>
  The squared distance from the eye \<open>e\<close> to the centre of a task as the program computes
  it, in \<^verbatim>\<open>double\<close> arithmetic: the sum of the squares of the three coordinate
  differences.
\<close>

definition sqDist :: "vec3 \<Rightarrow> DrawSurfaceTask \<Rightarrow> double" where
  "sqDist e t =
     (case e of (ex, ey, ez) \<Rightarrow> case center t of (cx, cy, cz) \<Rightarrow>
        dadd (dadd (dmul (dsub cx ex) (dsub cx ex)) (dmul (dsub cy ey) (dsub cy ey)))
             (dmul (dsub cz ez) (dsub cz ez)))"

text \<open>
  The squared distance of the specification: the exact sum of squares, a real number,
  for coordinates that are numbers.
\<close>

fun exactSq :: "double \<Rightarrow> double \<Rightarrow> real option" where
  "exactSq (Finite c) (Finite e) = Some ((c - e) * (c - e))"
| "exactSq c e = None"

definition exactSqDist :: "vec3 \<Rightarrow> DrawSurfaceTask \<Rightarrow> real option" where
  "exactSqDist e t =
     (case e of (ex, ey, ez) \<Rightarrow> case center t of (cx, cy, cz) \<Rightarrow>
        (case (exactSq cx ex, exactSq cy ey, exactSq cz ez) of
           (Some a, Some b, Some c) \<Rightarrow> Some (a + b + c)
         | _ \<Rightarrow> None))"

section \<open>Example runs, caches, nodes and cameras\<close>

text \<open>
  A chain of redirections: the fetcher answers \<open>k\<close> times with status 302, and each
  answer is handled by \<^verbatim>\<open>fetchedFile\<close>; the chain ends early when the resource leaves
  the state \<open>downloading\<close>, as no further fetch is then in flight.
\<close>

fun redirectChain :: "nat \<Rightarrow> MapImpl \<Rightarrow> Resource \<Rightarrow> MapImpl \<times> Resource" where
  "redirectChain 0 m r = (m, r)"
| "redirectChain (Suc k) m r =
     (case fetchedFile m (reply 302 [] [] ''http://b/next'' r) of
        (e, m1, r1) \<Rightarrow> if state r1 = downloading then redirectChain k m1 r1 else (m1, r1))"

text \<open>
  A view in which every node is visible and none is coarse enough, and a leaf whose
  metadata and draws are resolved and ready.
\<close>

definition refineEnv :: TravEnv where
  "refineEnv = \<lparr>travDetermineMeta = (\<lambda>t. None), travDetermineDraws = (\<lambda>t. t),
                visibilityTest = (\<lambda>t. True), coarsenessTest = (\<lambda>t. False)\<rparr>"

definition leafNode :: TraverseNode where
  "leafNode = TraverseNode 7 (Some True) [True] []"

definition readyChild :: TraverseNode where
  "readyChild = TraverseNode 8 (Some True) [True] []"

definition pendingChild :: TraverseNode where
  "pendingChild = TraverseNode 9 None [] []"

text \<open>
  A view in which the metadata of a node is resolved at the first visit: the node gets a
  surface and two fresh children, which have no metadata yet, and its draws are resolved
  and ready at once.  \<open>unresolvedNode\<close> is a node before that visit.
\<close>

definition metaEnv :: TravEnv where
  "metaEnv =
     \<lparr>travDetermineMeta =
        (\<lambda>t. Some (TraverseNode (nodeId t) (Some True) (renders t)
                     [pendingChild, TraverseNode 10 None [] []])),
      travDetermineDraws = (\<lambda>t. TraverseNode (nodeId t) (meta t) [True] (childs t)),
      visibilityTest = (\<lambda>t. True), coarsenessTest = (\<lambda>t. False)\<rparr>"

definition unresolvedNode :: TraverseNode where
  "unresolvedNode = TraverseNode 3 None [] []"

text \<open>A camera at the origin and two tasks, the farther one emitted first.\<close>

definition farTask :: DrawSurfaceTask where
  "farTask = \<lparr>center = (Finite 0, Finite 0, Finite 5), mesh = 1\<rparr>"

definition nearTask :: DrawSurfaceTask where
  "nearTask = \<lparr>center = (Finite 1, Finite 0, Finite 0), mesh = 2\<rparr>"

definition originCamera :: CameraImpl where
  "originCamera =
     \<lparr>mapconfigReady = True, windowWidth = 800, windowHeight = 600,
      eye = (Finite 0, Finite 0, Finite 0), draws_camera_eye = (Finite 9, Finite 9, Finite 9),
      draws_opaque = [farTask]\<rparr>"

text \<open>
  A task whose centre is off the first axis by \<open>2^-30\<close>, a value that a \<^verbatim>\<open>float\<close> holds; it
  is farther from the origin than \<open>nearTask\<close> by \<open>2^-60\<close> in the square.
\<close>

definition offAxisTask :: DrawSurfaceTask where
  "offAxisTask = \<lparr>center = (Finite 1, Finite (1 / 2 ^ 30), Finite 0), mesh = 1\<rparr>"

text \<open>A camera as its constructor leaves it, the eye \<^verbatim>\<open>nan3()\<close>, once the map is ready.\<close>

definition nanCamera :: CameraImpl where
  "nanCamera =
     \<lparr>mapconfigReady = True, windowWidth = 800, windowHeight = 600,
      eye = (NaN, NaN, NaN), draws_camera_eye = (NaN, NaN, NaN), draws_opaque = []\<rparr>"

text \<open>
  A cache over its budget of 120 at frame 1000: two resources last used at tick 10, the
  second the larger, and one used at tick 950.
\<close>

definition resA :: Resource where
  "resA = (newResource ''http://t/a'')\<lparr>ramMemoryCost := 60, lastAccessTick := 10, state := ready\<rparr>"

definition resB :: Resource where
  "resB = (newResource ''http://t/b'')\<lparr>ramMemoryCost := 80, gpuMemoryCost := 10,
            lastAccessTick := 10, state := ready\<rparr>"

definition resC :: Resource where
  "resC = (newResource ''http://t/c'')\<lparr>ramMemoryCost := 50, lastAccessTick := 950, state := ready\<rparr>"

definition evictMap :: MapImpl where
  "evictMap = (initial {} {} 10 120)\<lparr>resources := [resA, resB, resC], frameIndex := 1000\<rparr>"

text \<open>
  A cache over its budget at frame \<open>2^32 - 10\<close> whose only resource was used 40 frames
  earlier.
\<close>

definition wrapRes :: Resource where
  "wrapRes = (newResource ''http://t/w'')\<lparr>ramMemoryCost := 60, lastAccessTick := 4294967246,
               state := ready\<rparr>"

definition wrapMap :: MapImpl where
  "wrapMap = (initial {} {} 10 5)\<lparr>resources := [wrapRes], frameIndex := 4294967286\<rparr>"

section \<open>Notions used to state the properties of the eviction pass\<close>

text \<open>The candidates that the pass of \<^verbatim>\<open>dataRenderTick\<close> visits, in the order of the visit.\<close>

definition processed :: "MapImpl \<Rightarrow> Resource list" where
  "processed m = visited (maxResourcesMemory m) (candidates m) (memUseOf m)"

text \<open>
  The order of the candidates in words: an older access first and, for equal access
  ticks, the larger cost first.  The cost of a resource is the sum the comparison uses.
\<close>

definition totalCost :: "Resource \<Rightarrow> uint32" where
  "totalCost r = gpuMemoryCost r + ramMemoryCost r"

definition evictOrder :: "Resource \<Rightarrow> Resource \<Rightarrow> bool" where
  "evictOrder a b =
     (lastAccessTick a < lastAccessTick b
      \<or> (lastAccessTick a = lastAccessTick b \<and> totalCost b \<le> totalCost a))"

definition costSum :: "Resource list \<Rightarrow> uint32" where
  "costSum rs = sum_list (map totalCost rs)"

text \<open>A run of operations, the first of the list first.\<close>

fun run :: "Env \<Rightarrow> Op list \<Rightarrow> MapImpl \<Rightarrow> MapImpl" where
  "run env [] m = m"
| "run env (op # ops) m = run env ops (exec env op m)"

section \<open>The transition graph\<close>

text \<open>
  The edges of the graph of section 4.3 of the specification, as the claim lists them.
\<close>

fun specEdge :: "State \<Rightarrow> State \<Rightarrow> bool" where
  "specEdge initializing downloading = True"
| "specEdge initializing downloaded = True"
| "specEdge initializing errorLoad = True"
| "specEdge downloading downloaded = True"
| "specEdge downloading errorDownload = True"
| "specEdge downloaded ready = True"
| "specEdge downloaded errorLoad = True"
| "specEdge ready finalizing = True"
| "specEdge errorDownload finalizing = True"
| "specEdge errorLoad finalizing = True"
| "specEdge finalizing initializing = True"
| "specEdge _ _ = False"

text \<open>
  The edges that the operations of the cache take: those of the graph, the load of a
  resource from internal memory or from the disk cache within one \<^verbatim>\<open>dataTick\<close>, and the
  eviction of a resource that is still initializing or downloaded.
\<close>

definition codeEdge :: "State \<Rightarrow> State \<Rightarrow> bool" where
  "codeEdge s t =
     (specEdge s t \<or> (s = initializing \<and> t = ready)
      \<or> (s = initializing \<and> t = finalizing) \<or> (s = downloaded \<and> t = finalizing))"

text \<open>
  A decoder that accepts every content, and a cache in which a mesh kept in internal
  memory has been requested and queued.
\<close>

definition acceptEnv :: Env where
  "acceptEnv = \<lparr>load = (\<lambda>r. Some (10, 20)), internalMemory = (\<lambda>n. ''v 0 0 0''),
                cacheContent = (\<lambda>n. [])\<rparr>"

definition internalMap :: MapImpl where
  "internalMap =
     dataRenderTick (getMapResource (initial {} {} 10 1000) ''data/meshes/sphere.obj'')"



text \<open>
  Two resources whose names end with \<^verbatim>\<open>://\<close> are requested, with at most one concurrent
  download; the queue is handed over and the data thread runs twice.
\<close>

definition schemeOnly :: MapImpl where
  "schemeOnly =
     run acceptEnv [Get ''a://'', Get ''b://'', RenderTick, DataTick, DataTick]
       (initial {} {} 1 1000)"

section \<open>Notions used to state the properties of runs\<close>


text \<open>A step that leaves the resources, the fetches and the download counter as they are.\<close>

definition idleStep :: "MapImpl \<Rightarrow> MapImpl \<Rightarrow> bool" where
  "idleStep m m' =
     (resources m' = resources m \<and> downloads m' = downloads m \<and> pending m' = pending m
      \<and> maxConcurrentDownloads m' = maxConcurrentDownloads m)"

text \<open>
  A step that replaces the resource \<open>r\<close> of the map by \<open>r'\<close>: the state moves along an
  edge, and either no fetch is issued or answered, or a fetch is issued for \<open>r\<close> below
  the limit and counted, or the fetch of \<open>r\<close> is answered and issued again, or it is
  answered and the counter is decremented or left.
\<close>

definition resourceStep :: "MapImpl \<Rightarrow> MapImpl \<Rightarrow> Resource \<Rightarrow> Resource \<Rightarrow> bool" where
  "resourceStep m m' r r' =
     (findRes (name r) (resources m) = Some r \<and> name r' = name r
      \<and> resources m' = storeRes r' (resources m)
      \<and> maxConcurrentDownloads m' = maxConcurrentDownloads m
      \<and> (state r' = state r \<or> codeEdge (state r) (state r'))
      \<and> (state r' = finalizing \<longrightarrow> state r = finalizing)
      \<and> ((pending m' = pending m \<and> downloads m' = downloads m
            \<and> (state r = downloading \<longrightarrow> state r' = downloading))
         \<or> (pending m' = pending m @ [name r] \<and> state r \<noteq> downloading
            \<and> state r' = downloading
            \<and> downloads m < maxConcurrentDownloads m \<and> downloads m' = downloads m + 1)
         \<or> (name r \<in> set (pending m)
            \<and> pending m' = remove1 (name r) (pending m) @ [name r]
            \<and> state r' = downloading \<and> downloads m' = downloads m)
         \<or> (name r \<in> set (pending m) \<and> pending m' = remove1 (name r) (pending m)
            \<and> (downloads m' = downloads m - 1 \<or> downloads m' = downloads m))))"

section \<open>Properties of \<^verbatim>\<open>fetchedFile\<close>\<close>

lemmas fetchedFile_defs =
  fetchedFile_def reply_def handleErrorCodes_def availabilityTests_def
  handleRedirections_def fetchedFile_finish_def isRedirection_def fetcherFetch_def

lemma fetchedFile_redirect:
  assumes "state r = downloading" "availTest r = None" "isRedirection c"
  shows "fetchedFile m (reply c ct cd ru r) =
     (None,
      if redirectionsCount r > 5
      then (m\<lparr>downloads := downloads m - 1, invalidUrlNew := insert (name r) (invalidUrlNew m)\<rparr>,
            r\<lparr>code := c, contentType := ct, contentData := [], redirectUrl := ru,
              redirectionsCount := redirectionsCount r + 1, state := errorDownload\<rparr>)
      else (m\<lparr>fetcher := fetcher m @ [ru], pending := pending m @ [name r]\<rparr>,
            r\<lparr>code := c, contentType := ct, contentData := cd, redirectUrl := ru,
              redirectionsCount := redirectionsCount r + 1, url := ru\<rparr>))"
  using assms by (auto simp: fetchedFile_defs)

lemma fetchedFile_accept:
  assumes "state r = downloading" "availTest r = None" "0 < c" "c < 400" "\<not> isRedirection c"
  shows "fetchedFile m (reply c ct cd ru r) =
     (None, m\<lparr>downloads := downloads m - 1, cacheFiles := insert (name r) (cacheFiles m)\<rparr>,
      r\<lparr>code := c, contentType := ct, contentData := cd, redirectUrl := ru,
        state := downloaded\<rparr>)"
  using assms by (simp add: fetchedFile_defs)

text \<open>
  While the counter of a resource is at most 5, a redirection is followed: after \<open>k\<close>
  redirections the resource is still downloading and \<open>k\<close> further fetches were issued.
\<close>

lemma redirectChain_follows:
  assumes "state r = downloading" "availTest r = None" "unat (redirectionsCount r) + k \<le> 6"
  shows "state (snd (redirectChain k m r)) = downloading
       \<and> availTest (snd (redirectChain k m r)) = None
       \<and> redirectionsCount (snd (redirectChain k m r)) = redirectionsCount r + of_nat k
       \<and> fetcher (fst (redirectChain k m r)) = fetcher m @ replicate k ''http://b/next''"
  using assms
proof (induction k arbitrary: m r)
  case 0
  then show ?case by simp
next
  case (Suc k)
  have le: "\<not> redirectionsCount r > 5"
    using Suc.prems(3) by (simp add: word_less_nat_alt)
  have red: "isRedirection 302" by (simp add: isRedirection_def)
  let ?m1 = "m\<lparr>fetcher := fetcher m @ [''http://b/next''], pending := pending m @ [name r]\<rparr>"
  let ?r1 = "r\<lparr>code := 302, contentType := [], contentData := [], redirectUrl := ''http://b/next'',
              redirectionsCount := redirectionsCount r + 1, url := ''http://b/next''\<rparr>"
  have step: "redirectChain (Suc k) m r = redirectChain k ?m1 ?r1"
    using fetchedFile_redirect [OF Suc.prems(1,2) red, of m "[]" "[]" "''http://b/next''"] le Suc.prems(1)
    by simp
  have cnt: "unat (redirectionsCount r + 1) = unat (redirectionsCount r) + 1"
    using Suc.prems(3) by (simp add: unat_word_ariths)
  have "unat (redirectionsCount ?r1) + k \<le> 6" using cnt Suc.prems(3) by simp
  from Suc.IH [of ?r1 ?m1, OF _ _ this] Suc.prems(1,2)
  show ?case unfolding step by (simp add: replicate_app_Cons_same)
qed

text \<open>
  What the tail of \<^verbatim>\<open>fetchedFile\<close> guarantees whenever the function returns: a resource
  left in \<open>errorDownload\<close> has its buffer freed and its name on the staging blacklist
  and nothing was written to the disk cache, and the disk cache is written only for a
  resource left in \<open>downloaded\<close>.
\<close>

lemma fetchedFile_returns:
  assumes "fetchedFile m r = (None, m1, r1)"
  shows "(state r1 = errorDownload \<longrightarrow>
            contentData r1 = [] \<and> name r \<in> invalidUrlNew m1 \<and> cacheFiles m1 = cacheFiles m)
       \<and> (cacheFiles m1 \<noteq> cacheFiles m \<longrightarrow> state r1 = downloaded)"
proof -
  obtain e r2 where a: "availabilityTests (handleErrorCodes r) = (e, r2)"
    by (cases "availabilityTests (handleErrorCodes r)") auto
  with assms have e: "e = None" and h: "handleRedirections m r2 = (m1, r1)"
    by (auto simp: fetchedFile_def split: option.splits)
  have n: "name r2 = name r"
    using a by (auto simp: availabilityTests_def handleErrorCodes_def
        split: option.splits if_splits AvailabilityType.splits)
  show ?thesis
    using h n
    by (auto simp: handleRedirections_def fetchedFile_finish_def fetcherFetch_def Let_def
        split: if_splits)
qed

text \<open>
  The three availability tests on a reply whose status code is neither an error nor a
  redirection: \<open>negativeType\<close> rejects a reply whose content type is the mime type of the
  predicate and accepts every other; \<open>negativeCode\<close> rejects a reply whose status code
  is not in the code set; \<open>negativeSize\<close> raises whatever the size of the content.
\<close>

lemma fetchedFile_negativeType:
  assumes "state r = downloading" "availTest r = Some a" "avail_type a = negativeType"
      and "0 < c" "c < 400" "\<not> isRedirection c"
  shows "fst (fetchedFile m (reply c ct cd ru r)) = None
       \<and> state (snd (snd (fetchedFile m (reply c ct cd ru r))))
           = (if avail_mime a = ct then errorDownload else downloaded)"
  using assms by (simp add: fetchedFile_defs)

lemma fetchedFile_negativeCode:
  assumes "state r = downloading" "availTest r = Some a" "avail_type a = negativeCode"
      and "0 < c" "c < 400" "\<not> isRedirection c"
  shows "fst (fetchedFile m (reply c ct cd ru r)) = None
       \<and> state (snd (snd (fetchedFile m (reply c ct cd ru r))))
           = (if c \<in> avail_codes a then downloaded else errorDownload)"
  using assms by (simp add: fetchedFile_defs)

lemma fetchedFile_negativeSize:
  assumes "state r = downloading" "availTest r = Some a" "avail_type a = negativeSize"
      and "0 < c" "c < 400"
  shows "fst (fetchedFile m (reply c ct cd ru r)) = Some invalid_argument
       \<and> state (snd (snd (fetchedFile m (reply c ct cd ru r))))
           = (if length cd \<le> avail_size a then errorDownload else downloading)"
  using assms by (simp add: fetchedFile_defs)

text \<open>A reply with an error status is a failed download, whatever the predicate.\<close>

lemma fetchedFile_error_code:
  assumes "state r = downloading" "400 \<le> c \<or> c = 0"
  shows "fst (fetchedFile m (reply c ct cd ru r)) = None
       \<and> state (snd (snd (fetchedFile m (reply c ct cd ru r)))) = errorDownload"
  using assms
  by (auto simp: fetchedFile_defs split: option.splits AvailabilityType.splits)

text \<open>
  C2.  A fetch answered with status 200 and ten bytes of content, for a resource whose
  availability predicate is \<open>negativeSize\<close> with threshold 4, does not match the
  predicate; the predicate evaluation nevertheless raises \<^verbatim>\<open>std::invalid_argument\<close> and
  the resource stays in \<open>downloading\<close> instead of proceeding to \<open>downloaded\<close>.  For a
  \<open>negativeCode\<close> predicate with code set \<open>{404}\<close> the answer 200, which is not in the set,
  puts the resource in \<open>errorDownload\<close>.
\<close>

theorem fetchedFile_availability_at_200:
  "fetchedFile m (reply 200 ct ''0123456789'' ru
      (r\<lparr>state := downloading,
         availTest := Some \<lparr>avail_type = negativeSize, avail_mime = mi,
                           avail_codes = cs, avail_size = 4\<rparr>\<rparr>))
   = (Some invalid_argument, m,
      r\<lparr>state := downloading,
        availTest := Some \<lparr>avail_type = negativeSize, avail_mime = mi,
                          avail_codes = cs, avail_size = 4\<rparr>,
        code := 200, contentType := ct, contentData := ''0123456789'', redirectUrl := ru\<rparr>)
   \<and> state (snd (snd (fetchedFile m (reply 200 ct cd ru
      (r\<lparr>state := downloading,
         availTest := Some \<lparr>avail_type = negativeCode, avail_mime = mi,
                           avail_codes = {404}, avail_size = sz\<rparr>\<rparr>))))) = errorDownload"
  by (simp add: fetchedFile_defs)

text \<open>
  C3.  A resource whose counter of redirections is zero and whose fetch is answered six
  times in a row with a redirection: all six are followed (six further fetches are
  issued and the resource is still downloading), so that a final answer 200 leaves it
  in \<open>downloaded\<close>; only a seventh redirection puts it in \<open>errorDownload\<close>.
\<close>

theorem redirectChain_six_hops:
  "state (snd (redirectChain 6 m (r\<lparr>state := downloading, availTest := None,
                                     redirectionsCount := 0\<rparr>))) = downloading
   \<and> fetcher (fst (redirectChain 6 m (r\<lparr>state := downloading, availTest := None,
                                        redirectionsCount := 0\<rparr>)))
       = fetcher m @ replicate 6 ''http://b/next''
   \<and> state (snd (snd (fetchedFile
        (fst (redirectChain 6 m (r\<lparr>state := downloading, availTest := None,
                                   redirectionsCount := 0\<rparr>)))
        (reply 200 [] ''data'' []
           (snd (redirectChain 6 m (r\<lparr>state := downloading, availTest := None,
                                      redirectionsCount := 0\<rparr>))))))) = downloaded
   \<and> state (snd (snd (fetchedFile
        (fst (redirectChain 6 m (r\<lparr>state := downloading, availTest := None,
                                   redirectionsCount := 0\<rparr>)))
        (reply 302 [] [] ''http://b/next''
           (snd (redirectChain 6 m (r\<lparr>state := downloading, availTest := None,
                                      redirectionsCount := 0\<rparr>))))))) = errorDownload"
proof -
  let ?r = "r\<lparr>state := downloading, availTest := None, redirectionsCount := 0\<rparr>"
  let ?m6 = "fst (redirectChain 6 m ?r)"
  let ?r6 = "snd (redirectChain 6 m ?r)"
  have six: "state ?r6 = downloading \<and> availTest ?r6 = None
      \<and> redirectionsCount ?r6 = redirectionsCount ?r + of_nat 6
      \<and> fetcher ?m6 = fetcher m @ replicate 6 ''http://b/next''"
    by (rule redirectChain_follows) simp_all
  have ok: "state (snd (snd (fetchedFile ?m6 (reply 200 [] ''data'' [] ?r6)))) = downloaded"
    using six by (subst fetchedFile_accept) (simp_all add: isRedirection_def)
  have cnt: "redirectionsCount ?r6 > 5" using six by simp
  have red: "isRedirection 302" by (simp add: isRedirection_def)
  have ko: "state (snd (snd (fetchedFile ?m6 (reply 302 [] [] ''http://b/next'' ?r6)))) = errorDownload"
    using six cnt red by (subst fetchedFile_redirect) simp_all
  show ?thesis using six ok ko by simp
qed

text \<open>
  C10.  A fetch answered with status 200 and four bytes of content, for a resource whose
  availability predicate is \<open>negativeSize\<close> with threshold 4: the resource is put in
  \<open>errorDownload\<close>, and the exception raised right after leaves its content buffer in
  place, its name off the staging blacklist and the download slot taken.
\<close>

theorem fetchedFile_negativeSize_match:
  "fetchedFile m (reply 200 ct ''0123'' ru
      (r\<lparr>state := downloading,
         availTest := Some \<lparr>avail_type = negativeSize, avail_mime = mi,
                           avail_codes = cs, avail_size = 4\<rparr>\<rparr>))
   = (Some invalid_argument, m,
      r\<lparr>state := errorDownload,
        availTest := Some \<lparr>avail_type = negativeSize, avail_mime = mi,
                          avail_codes = cs, avail_size = 4\<rparr>,
        code := 200, contentType := ct, contentData := ''0123'', redirectUrl := ru\<rparr>)"
  by (simp add: fetchedFile_defs)

section \<open>Sorting with a comparison\<close>

lemma set_std_insert: "set (std_insert precedes x xs) = insert x (set xs)"
  by (induction xs) auto

lemma mset_std_insert: "mset (std_insert precedes x xs) = add_mset x (mset xs)"
  by (induction xs) auto

lemma mset_std_sort: "mset (std_sort precedes xs) = mset xs"
  by (induction xs) (auto simp: mset_std_insert)

lemma set_std_sort: "set (std_sort precedes xs) = set xs"
  by (induction xs) (auto simp: set_std_insert)

text \<open>
  The result is in the order \<open>le\<close> whenever, on the elements sorted, \<open>le\<close> is transitive
  and holds one way or the other according to the comparison.
\<close>

lemma sorted_wrt_std_insert_on:
  assumes tot: "\<And>a b. a \<in> A \<Longrightarrow> b \<in> A \<Longrightarrow> \<not> precedes a b \<Longrightarrow> le b a"
      and bl: "\<And>a b. a \<in> A \<Longrightarrow> b \<in> A \<Longrightarrow> precedes a b \<Longrightarrow> le a b"
      and tr: "\<And>a b c. a \<in> A \<Longrightarrow> b \<in> A \<Longrightarrow> c \<in> A \<Longrightarrow> le a b \<Longrightarrow> le b c \<Longrightarrow> le a c"
      and x: "x \<in> A"
      and "set xs \<subseteq> A" "sorted_wrt le xs"
  shows "sorted_wrt le (std_insert precedes x xs)"
  using assms(5,6)
proof (induction xs)
  case Nil
  then show ?case by simp
next
  case (Cons y ys)
  have y: "y \<in> A" and ys: "set ys \<subseteq> A" using Cons.prems(1) by simp_all
  have yz: "\<forall>z\<in>set ys. le y z" and sys: "sorted_wrt le ys" using Cons.prems(2) by simp_all
  show ?case
  proof (cases "precedes y x")
    case True
    have "le y x" using bl [OF y x True] .
    moreover have "sorted_wrt le (std_insert precedes x ys)" using Cons.IH [OF ys sys] .
    ultimately show ?thesis using True yz by (simp add: set_std_insert)
  next
    case False
    have xy: "le x y" using tot [OF y x False] .
    have "\<forall>z\<in>set ys. le x z"
    proof
      fix z assume z: "z \<in> set ys"
      then have "z \<in> A" using ys by blast
      then show "le x z" using tr [OF x y _ xy] yz z by blast
    qed
    then show ?thesis using False xy yz sys by simp
  qed
qed

lemma sorted_wrt_std_sort_on:
  assumes "\<And>a b. a \<in> A \<Longrightarrow> b \<in> A \<Longrightarrow> \<not> precedes a b \<Longrightarrow> le b a"
      and "\<And>a b. a \<in> A \<Longrightarrow> b \<in> A \<Longrightarrow> precedes a b \<Longrightarrow> le a b"
      and "\<And>a b c. a \<in> A \<Longrightarrow> b \<in> A \<Longrightarrow> c \<in> A \<Longrightarrow> le a b \<Longrightarrow> le b c \<Longrightarrow> le a c"
      and "set xs \<subseteq> A"
  shows "sorted_wrt le (std_sort precedes xs)"
  using assms(4)
proof (induction xs)
  case Nil
  show ?case by simp
next
  case (Cons x xs)
  have x: "x \<in> A" and xs: "set (std_sort precedes xs) \<subseteq> A"
    using Cons.prems by (simp_all add: set_std_sort)
  have "sorted_wrt le (std_sort precedes xs)" using Cons.IH Cons.prems by simp
  from sorted_wrt_std_insert_on [of A precedes le, OF assms(1,2,3) x xs this]
  show ?case by simp
qed

lemma sorted_wrt_std_sort:
  assumes "\<And>x y. \<not> precedes x y \<Longrightarrow> le y x"
      and "\<And>x y. precedes x y \<Longrightarrow> le x y"
      and "\<And>x y z. le x y \<Longrightarrow> le y z \<Longrightarrow> le x z"
  shows "sorted_wrt le (std_sort precedes xs)"
  by (rule sorted_wrt_std_sort_on [of UNIV]) (use assms in blast)+

section \<open>Front-to-back order of the opaque draws\<close>

lemma dless_dle: "dless a b \<Longrightarrow> dle a b"
  by (cases a; cases b) simp_all

lemma not_dless_dle: "a \<noteq> NaN \<Longrightarrow> b \<noteq> NaN \<Longrightarrow> \<not> dless a b \<Longrightarrow> dle b a"
  by (cases a; cases b) simp_all

lemma dadd_NaN: "dadd a NaN = NaN"
  by (cases a) simp_all

lemma dle_trans: "dle a b \<Longrightarrow> dle b c \<Longrightarrow> dle a c"
  by (cases a; cases b; cases c) simp_all

text \<open>The comparison of the sort is the comparison of the computed squared distances.\<close>

lemma opaqueBefore_sqDist: "opaqueBefore e a b = dless (sqDist e a) (sqDist e b)"
  by (cases e; cases "center a"; cases "center b")
     (simp add: opaqueBefore_def sqDist_def sub3_def dot_def Let_def split: prod.splits)

lemma opaque_sorted:
  assumes "\<forall>t\<in>set ts. sqDist e t \<noteq> NaN"
  shows "sorted_wrt (\<lambda>a b. dle (sqDist e a) (sqDist e b)) (std_sort (opaqueBefore e) ts)"
proof (rule sorted_wrt_std_sort_on [where A = "{t. sqDist e t \<noteq> NaN}"])
  show "set ts \<subseteq> {t. sqDist e t \<noteq> NaN}" using assms by blast
next
  fix a b
  assume "a \<in> {t. sqDist e t \<noteq> NaN}" "b \<in> {t. sqDist e t \<noteq> NaN}" "\<not> opaqueBefore e a b"
  then show "dle (sqDist e b) (sqDist e a)"
    by (simp add: opaqueBefore_sqDist not_dless_dle)
next
  fix a b
  assume "opaqueBefore e a b"
  then show "dle (sqDist e a) (sqDist e b)"
    by (simp add: opaqueBefore_sqDist dless_dle)
next
  fix a b c
  assume "dle (sqDist e a) (sqDist e b)" "dle (sqDist e b) (sqDist e c)"
  then show "dle (sqDist e a) (sqDist e c)" by (rule dle_trans)
qed

text \<open>On every path the list is the result of the sort, for the eye the camera is left with.\<close>

lemma renderUpdate_sorted_list:
  "\<exists>ts. draws_opaque (renderUpdate nav trav c)
         = std_sort (opaqueBefore (draws_camera_eye (renderUpdate nav trav c))) ts"
proof (cases "mapconfigReady c \<and> windowWidth c \<noteq> 0 \<and> windowHeight c \<noteq> 0")
  case True
  then have "draws_opaque (renderUpdate nav trav c)
      = std_sort (opaqueBefore (draws_camera_eye (renderUpdate nav trav c)))
          (trav (c\<lparr>draws_opaque := [], eye := nav (eye c), draws_camera_eye := nav (eye c)\<rparr>))"
    by (simp add: renderUpdate_def clear_def sortOpaqueFrontToBack_def Let_def)
  then show ?thesis by blast
next
  case False
  then have "draws_opaque (renderUpdate nav trav c) = []"
    by (auto simp: renderUpdate_def clear_def Let_def)
  then have "draws_opaque (renderUpdate nav trav c)
      = std_sort (opaqueBefore (draws_camera_eye (renderUpdate nav trav c))) []"
    by simp
  then show ?thesis by blast
qed

lemma renderUpdate_tasks:
  assumes "mapconfigReady c" "windowWidth c \<noteq> 0" "windowHeight c \<noteq> 0"
  shows "mset (draws_opaque (renderUpdate nav trav c))
       = mset (trav (c\<lparr>draws_opaque := [], eye := nav (eye c), draws_camera_eye := nav (eye c)\<rparr>))"
  using assms
  by (simp add: renderUpdate_def clear_def Let_def sortOpaqueFrontToBack_def mset_std_sort)

text \<open>Rounding at the numbers that the examples meet.\<close>

lemma binade_eq:
  assumes "2 powi e \<le> \<bar>x\<bar>" "\<bar>x\<bar> < 2 powi (e + 1)" "- 1022 \<le> e" "e \<le> 1024"
  shows "binade x = e"
  unfolding binade_def
proof (rule Max_eqI)
  show "finite (set (- 1022 # filter (\<lambda>e. 2 powi e \<le> \<bar>x\<bar>) [- 1022..1024]))"
    by (rule finite_set)
next
  fix y
  assume "y \<in> set (- 1022 # filter (\<lambda>e. 2 powi e \<le> \<bar>x\<bar>) [- 1022..1024])"
  then have "y = - 1022 \<or> 2 powi y \<le> \<bar>x\<bar>"
    unfolding list.set set_filter by blast
  then show "y \<le> e"
  proof
    assume "y = - 1022"
    then show ?thesis using assms(3) by simp
  next
    assume le: "2 powi y \<le> \<bar>x\<bar>"
    show ?thesis
    proof (rule ccontr)
      assume "\<not> y \<le> e"
      then have "e + 1 \<le> y" by simp
      then have "(2::real) powi (e + 1) \<le> 2 powi y" by (rule power_int_increasing) simp
      then show False using le assms(2) by linarith
    qed
  qed
next
  have "e \<in> set [- 1022..1024]" using assms(3,4) unfolding set_upto by simp
  then show "e \<in> set (- 1022 # filter (\<lambda>e. 2 powi e \<le> \<bar>x\<bar>) [- 1022..1024])"
    unfolding list.set set_filter using assms(1) by blast
qed

lemma roundDouble_0: "roundDouble 0 = Finite 0"
  by (simp add: roundDouble_def)

lemma roundDouble_1: "roundDouble 1 = Finite 1"
  using binade_eq [of 0 1] by (simp add: roundDouble_def roundEven_def Let_def)

lemma roundDouble_5: "roundDouble 5 = Finite 5"
  using binade_eq [of 2 5] by (simp add: roundDouble_def roundEven_def Let_def)

lemma roundDouble_25: "roundDouble 25 = Finite 25"
  using binade_eq [of 4 25] by (simp add: roundDouble_def roundEven_def Let_def)

lemma roundDouble_small: "roundDouble (1 / 2 ^ 30) = Finite (1 / 2 ^ 30)"
  using binade_eq [of "- 30" "1 / 2 ^ 30"] by (simp add: roundDouble_def roundEven_def Let_def)

lemma roundDouble_smaller: "roundDouble (1 / 2 ^ 60) = Finite (1 / 2 ^ 60)"
  using binade_eq [of "- 60" "1 / 2 ^ 60"] by (simp add: roundDouble_def roundEven_def Let_def)

text \<open>The sum \<open>1 + 2^-60\<close> is not a \<^verbatim>\<open>double\<close>: it is rounded to 1.\<close>

lemma roundDouble_absorbed: "roundDouble (1 + 1 / 2 ^ 60) = Finite 1"
  using binade_eq [of 0 "1 + 1 / 2 ^ 60"] by (simp add: roundDouble_def roundEven_def Let_def)

lemma sqDist_farTask: "sqDist (Finite 0, Finite 0, Finite 0) farTask = Finite 25"
  by (simp add: sqDist_def farTask_def dsub_def roundDouble_0 roundDouble_5 roundDouble_25)

lemma sqDist_nearTask: "sqDist (Finite 0, Finite 0, Finite 0) nearTask = Finite 1"
  by (simp add: sqDist_def nearTask_def dsub_def roundDouble_0 roundDouble_1)

lemma sqDist_offAxisTask: "sqDist (Finite 0, Finite 0, Finite 0) offAxisTask = Finite 1"
proof -
  have sq: "(1 / 2 ^ 30) * (1 / 2 ^ 30) = (1 / 2 ^ 60 :: real)" by simp
  have "dmul (Finite (1 / 2 ^ 30)) (Finite (1 / 2 ^ 30)) = Finite (1 / 2 ^ 60)"
    unfolding dmul.simps sq by (rule roundDouble_smaller)
  moreover have "dsub (Finite (1 / 2 ^ 30)) (Finite 0) = Finite (1 / 2 ^ 30)"
    unfolding dsub_def using roundDouble_small by simp
  moreover have "dsub (Finite 1) (Finite 0) = Finite 1" "dsub (Finite 0) (Finite 0) = Finite 0"
    unfolding dsub_def by (simp_all add: roundDouble_0 roundDouble_1)
  moreover have "dmul (Finite 1) (Finite 1) = Finite 1" "dmul (Finite 0) (Finite 0) = Finite 0"
    by (simp_all add: roundDouble_0 roundDouble_1)
  moreover have "dadd (Finite 1) (Finite (1 / 2 ^ 60)) = Finite 1"
    unfolding dadd.simps by (rule roundDouble_absorbed)
  moreover have "dadd (Finite 1) (Finite 0) = Finite 1"
    by (simp add: roundDouble_1)
  ultimately show ?thesis
    unfolding sqDist_def offAxisTask_def by (simp del: dmul.simps dadd.simps)
qed

text \<open>
  C9, amended.  When \<^verbatim>\<open>renderUpdate\<close> has completed, on whichever path, and none of the
  squared distances that the program computes for the opaque draw tasks, in \<^verbatim>\<open>double\<close>
  arithmetic from the camera eye to the centre of the task, is a NaN, the tasks are in
  front-to-back order by these computed values: for every two consecutive tasks the
  computed squared distance of the earlier one is at most that of the later one.
\<close>

theorem renderUpdate_opaque_front_to_back:
  assumes "\<forall>t\<in>set (draws_opaque (renderUpdate nav trav c)).
             sqDist (draws_camera_eye (renderUpdate nav trav c)) t \<noteq> NaN"
  shows "\<forall>i. Suc i < length (draws_opaque (renderUpdate nav trav c)) \<longrightarrow>
           dle (sqDist (draws_camera_eye (renderUpdate nav trav c))
                  (draws_opaque (renderUpdate nav trav c) ! i))
               (sqDist (draws_camera_eye (renderUpdate nav trav c))
                  (draws_opaque (renderUpdate nav trav c) ! Suc i))"
proof (intro allI impI)
  fix i
  let ?c = "renderUpdate nav trav c"
  let ?e = "draws_camera_eye ?c"
  assume i: "Suc i < length (draws_opaque ?c)"
  obtain ts where ts: "draws_opaque ?c = std_sort (opaqueBefore ?e) ts"
    using renderUpdate_sorted_list by blast
  have "\<forall>t\<in>set ts. sqDist ?e t \<noteq> NaN"
    using assms unfolding ts by (simp add: set_std_sort)
  then have "sorted_wrt (\<lambda>a b. dle (sqDist ?e a) (sqDist ?e b)) (draws_opaque ?c)"
    unfolding ts by (rule opaque_sorted)
  then show "dle (sqDist ?e (draws_opaque ?c ! i)) (sqDist ?e (draws_opaque ?c ! Suc i))"
    using i by (simp add: sorted_wrt_iff_nth_less)
qed

lemma renderUpdate_far_near:
  "draws_opaque (renderUpdate (\<lambda>e. e) (\<lambda>c. [farTask, nearTask]) originCamera)
     = [nearTask, farTask]
   \<and> draws_camera_eye (renderUpdate (\<lambda>e. e) (\<lambda>c. [farTask, nearTask]) originCamera)
     = (Finite 0, Finite 0, Finite 0)"
  by (simp add: renderUpdate_def clear_def sortOpaqueFrontToBack_def Let_def originCamera_def
      opaqueBefore_sqDist sqDist_farTask sqDist_nearTask)

theorem renderUpdate_opaque_front_to_back_witness:
  "sqDist (draws_camera_eye (renderUpdate (\<lambda>e. e) (\<lambda>c. [farTask, nearTask]) originCamera))
      (draws_opaque (renderUpdate (\<lambda>e. e) (\<lambda>c. [farTask, nearTask]) originCamera) ! 0)
     = Finite 1
   \<and> sqDist (draws_camera_eye (renderUpdate (\<lambda>e. e) (\<lambda>c. [farTask, nearTask]) originCamera))
      (draws_opaque (renderUpdate (\<lambda>e. e) (\<lambda>c. [farTask, nearTask]) originCamera) ! Suc 0)
     = Finite 25
   \<and> Suc 0 < length (draws_opaque (renderUpdate (\<lambda>e. e) (\<lambda>c. [farTask, nearTask]) originCamera))
   \<and> draws_opaque (renderUpdate (\<lambda>e. e) (\<lambda>c. [farTask, nearTask]) originCamera)
       = [nearTask, farTask]
   \<and> dle (sqDist (draws_camera_eye (renderUpdate (\<lambda>e. e) (\<lambda>c. [farTask, nearTask]) originCamera))
            (draws_opaque (renderUpdate (\<lambda>e. e) (\<lambda>c. [farTask, nearTask]) originCamera) ! 0))
         (sqDist (draws_camera_eye (renderUpdate (\<lambda>e. e) (\<lambda>c. [farTask, nearTask]) originCamera))
            (draws_opaque (renderUpdate (\<lambda>e. e) (\<lambda>c. [farTask, nearTask]) originCamera) ! Suc 0))"
proof -
  let ?c = "renderUpdate (\<lambda>e. e) (\<lambda>c. [farTask, nearTask]) originCamera"
  have l: "draws_opaque ?c = [nearTask, farTask]"
    and e: "draws_camera_eye ?c = (Finite 0, Finite 0, Finite 0)"
    using renderUpdate_far_near by simp_all
  have k0: "sqDist (draws_camera_eye ?c) (draws_opaque ?c ! 0) = Finite 1"
    and k1: "sqDist (draws_camera_eye ?c) (draws_opaque ?c ! Suc 0) = Finite 25"
    unfolding l e by (simp_all add: sqDist_farTask sqDist_nearTask)
  have n: "\<forall>t\<in>set (draws_opaque ?c). sqDist (draws_camera_eye ?c) t \<noteq> NaN"
    unfolding l e by (simp add: sqDist_farTask sqDist_nearTask)
  have h: "Suc 0 < length (draws_opaque ?c)" unfolding l by simp
  from renderUpdate_opaque_front_to_back [OF n, rule_format, OF h]
  have "dle (sqDist (draws_camera_eye ?c) (draws_opaque ?c ! 0))
          (sqDist (draws_camera_eye ?c) (draws_opaque ?c ! Suc 0))" .
  with k0 k1 h l show ?thesis by blast
qed

text \<open>
  The order is that of the computed values, not of the exact squared distances: the
  centres \<open>(1, 2^-30, 0)\<close> and \<open>(1, 0, 0)\<close> seen from the origin both have the computed
  squared distance 1, the tasks are left in the order of their emission, and the exact
  squared distance of the first, \<open>1 + 2^-60\<close>, is greater than that of the second.
\<close>

theorem renderUpdate_rounding_counterexample:
  "draws_opaque (renderUpdate (\<lambda>e. e) (\<lambda>c. [offAxisTask, nearTask]) originCamera)
     = [offAxisTask, nearTask]
   \<and> sqDist (draws_camera_eye (renderUpdate (\<lambda>e. e) (\<lambda>c. [offAxisTask, nearTask]) originCamera))
        (draws_opaque (renderUpdate (\<lambda>e. e) (\<lambda>c. [offAxisTask, nearTask]) originCamera) ! 0)
     = Finite 1
   \<and> sqDist (draws_camera_eye (renderUpdate (\<lambda>e. e) (\<lambda>c. [offAxisTask, nearTask]) originCamera))
        (draws_opaque (renderUpdate (\<lambda>e. e) (\<lambda>c. [offAxisTask, nearTask]) originCamera) ! Suc 0)
     = Finite 1
   \<and> exactSqDist
        (draws_camera_eye (renderUpdate (\<lambda>e. e) (\<lambda>c. [offAxisTask, nearTask]) originCamera))
        (draws_opaque (renderUpdate (\<lambda>e. e) (\<lambda>c. [offAxisTask, nearTask]) originCamera) ! 0)
     = Some (1 + 1 / 2 ^ 60)
   \<and> exactSqDist
        (draws_camera_eye (renderUpdate (\<lambda>e. e) (\<lambda>c. [offAxisTask, nearTask]) originCamera))
        (draws_opaque (renderUpdate (\<lambda>e. e) (\<lambda>c. [offAxisTask, nearTask]) originCamera) ! Suc 0)
     = Some 1
   \<and> \<not> (1 + 1 / 2 ^ 60 \<le> (1::real))"
proof -
  let ?c = "renderUpdate (\<lambda>e. e) (\<lambda>c. [offAxisTask, nearTask]) originCamera"
  have l: "draws_opaque ?c = [offAxisTask, nearTask]"
    and e: "draws_camera_eye ?c = (Finite 0, Finite 0, Finite 0)"
    by (simp_all add: renderUpdate_def clear_def sortOpaqueFrontToBack_def Let_def
        originCamera_def opaqueBefore_sqDist sqDist_offAxisTask sqDist_nearTask)
  have x0: "exactSqDist (Finite 0, Finite 0, Finite 0) offAxisTask = Some (1 + 1 / 2 ^ 60)"
    by (simp add: exactSqDist_def offAxisTask_def)
  have x1: "exactSqDist (Finite 0, Finite 0, Finite 0) nearTask = Some 1"
    by (simp add: exactSqDist_def nearTask_def)
  show ?thesis
    unfolding l e using x0 x1 by (simp add: sqDist_offAxisTask sqDist_nearTask)
qed

text \<open>
  A NaN among the computed values leaves no order: seen from the eye \<^verbatim>\<open>nan3()\<close> every
  computed squared distance is a NaN, every comparison is false, and no task is at most
  as far as the next.
\<close>

lemma renderUpdate_nan_eye_unordered:
  "draws_opaque (renderUpdate (\<lambda>e. e) (\<lambda>c. [farTask, nearTask]) nanCamera)
     = [farTask, nearTask]
   \<and> sqDist (draws_camera_eye (renderUpdate (\<lambda>e. e) (\<lambda>c. [farTask, nearTask]) nanCamera))
        (draws_opaque (renderUpdate (\<lambda>e. e) (\<lambda>c. [farTask, nearTask]) nanCamera) ! 0) = NaN
   \<and> \<not> dle
        (sqDist (draws_camera_eye (renderUpdate (\<lambda>e. e) (\<lambda>c. [farTask, nearTask]) nanCamera))
           (draws_opaque (renderUpdate (\<lambda>e. e) (\<lambda>c. [farTask, nearTask]) nanCamera) ! 0))
        (sqDist (draws_camera_eye (renderUpdate (\<lambda>e. e) (\<lambda>c. [farTask, nearTask]) nanCamera))
           (draws_opaque (renderUpdate (\<lambda>e. e) (\<lambda>c. [farTask, nearTask]) nanCamera) ! Suc 0))"
proof -
  let ?c = "renderUpdate (\<lambda>e. e) (\<lambda>c. [farTask, nearTask]) nanCamera"
  have k: "sqDist (NaN, NaN, NaN) t = NaN" for t
    by (cases "center t") (simp add: sqDist_def dsub_def dadd_NaN split: prod.splits)
  have l: "draws_opaque ?c = [farTask, nearTask]"
    and e: "draws_camera_eye ?c = (NaN, NaN, NaN)"
    by (simp_all add: renderUpdate_def clear_def sortOpaqueFrontToBack_def Let_def
        nanCamera_def opaqueBefore_sqDist k)
  show ?thesis unfolding l e by (simp add: k)
qed

section \<open>Fallback rendering in hierarchical traversal\<close>

lemma childOk_iff:
  "childOk t \<longleftrightarrow>
     \<not> (meta t = None \<or> (meta t = Some True \<and> (renders t = [] \<or> \<not> node_ready t)))"
  by (cases "meta t") (auto simp: childOk_def)

text \<open>
  C7, amended.  In hierarchical traversal, a node is visited with \<open>loadOnly\<close> false.
  If its metadata is unresolved and cannot be resolved in this visit, nothing is
  rendered and nothing is enqueued.  Otherwise let \<open>trav1\<close> be the node with its
  metadata, resolved before the visit or by it, and let the node with its draws
  resolved be visible and fail the coarseness test.  If one of its children lacks
  metadata, or has a surface and draws that are empty or not all ready, the node is
  rendered and every child is enqueued with \<open>loadOnly\<close> true.  If the node has at least
  one child and no child is in that condition, the node is not rendered and the children
  are enqueued with \<open>loadOnly\<close> false.  A node without children is rendered and nothing
  is enqueued.
\<close>

theorem traverse_hierarchical_refine:
  "(meta trav = None \<and> travDetermineMeta env trav = None
      \<longrightarrow> traverse env Hierarchical trav False = \<lparr>rendered = [], queued = []\<rparr>)
   \<and> ((if meta trav = None then travDetermineMeta env trav else Some trav) = Some trav1
       \<and> visibilityTest env (resolveDraws env trav1)
       \<and> \<not> coarsenessTest env (resolveDraws env trav1)
      \<longrightarrow>
        ((\<exists>t\<in>set (childs (resolveDraws env trav1)).
             meta t = None \<or> (meta t = Some True \<and> (renders t = [] \<or> \<not> node_ready t)))
          \<longrightarrow> traverse env Hierarchical trav False
               = \<lparr>rendered = [resolveDraws env trav1],
                  queued = map (\<lambda>t. (t, True)) (childs (resolveDraws env trav1))\<rparr>)
      \<and> (childs (resolveDraws env trav1) \<noteq> []
          \<and> (\<forall>t\<in>set (childs (resolveDraws env trav1)).
             \<not> (meta t = None \<or> (meta t = Some True \<and> (renders t = [] \<or> \<not> node_ready t))))
          \<longrightarrow> traverse env Hierarchical trav False
               = \<lparr>rendered = [],
                  queued = map (\<lambda>t. (t, False)) (childs (resolveDraws env trav1))\<rparr>)
      \<and> (childs (resolveDraws env trav1) = []
          \<longrightarrow> traverse env Hierarchical trav False
               = \<lparr>rendered = [resolveDraws env trav1], queued = []\<rparr>))"
proof (intro conjI impI)
  assume "meta trav = None \<and> travDetermineMeta env trav = None"
  then show "traverse env Hierarchical trav False = \<lparr>rendered = [], queued = []\<rparr>"
    by (simp add: traverse_def)
next
  let ?t = "resolveDraws env trav1"
  assume a: "(if meta trav = None then travDetermineMeta env trav else Some trav) = Some trav1
      \<and> visibilityTest env ?t \<and> \<not> coarsenessTest env ?t"
  have tr: "traverse env Hierarchical trav False = traverseHierarchical env trav1 False"
    using a by (simp add: traverse_def)
  have ok: "list_all childOk (childs ?t) \<longleftrightarrow>
      (\<forall>t\<in>set (childs ?t).
         \<not> (meta t = None \<or> (meta t = Some True \<and> (renders t = [] \<or> \<not> node_ready t))))"
    by (simp add: list_all_iff childOk_iff)
  {
    assume "\<exists>t\<in>set (childs ?t).
        meta t = None \<or> (meta t = Some True \<and> (renders t = [] \<or> \<not> node_ready t))"
    then have "\<not> list_all childOk (childs ?t)" and "childs ?t \<noteq> []"
      using ok by auto
    then show "traverse env Hierarchical trav False
        = \<lparr>rendered = [?t], queued = map (\<lambda>t. (t, True)) (childs ?t)\<rparr>"
      unfolding tr using a by (simp add: traverseHierarchical_def Let_def)
  }
  {
    assume "childs ?t \<noteq> []
        \<and> (\<forall>t\<in>set (childs ?t).
           \<not> (meta t = None \<or> (meta t = Some True \<and> (renders t = [] \<or> \<not> node_ready t))))"
    then have "list_all childOk (childs ?t)" and "childs ?t \<noteq> []"
      using ok by auto
    then show "traverse env Hierarchical trav False
        = \<lparr>rendered = [], queued = map (\<lambda>t. (t, False)) (childs ?t)\<rparr>"
      unfolding tr using a by (simp add: traverseHierarchical_def Let_def)
  }
  {
    assume "childs ?t = []"
    then show "traverse env Hierarchical trav False = \<lparr>rendered = [?t], queued = []\<rparr>"
      unfolding tr using a by (simp add: traverseHierarchical_def Let_def)
  }
qed

text \<open>
  The theorem at three visits: a node whose metadata the visit resolves, creating two
  children without metadata, is rendered as the fallback; a node with resolved metadata
  and one ready child is left to the child; and a node whose metadata cannot be resolved
  yet is passed over.
\<close>

theorem traverse_hierarchical_refine_witness:
  "meta unresolvedNode = None
   \<and> travDetermineMeta metaEnv unresolvedNode
       = Some (TraverseNode 3 (Some True) [] [pendingChild, TraverseNode 10 None [] []])
   \<and> traverse metaEnv Hierarchical unresolvedNode False
      = \<lparr>rendered = [TraverseNode 3 (Some True) [True] [pendingChild, TraverseNode 10 None [] []]],
         queued = [(pendingChild, True), (TraverseNode 10 None [] [], True)]\<rparr>
   \<and> traverse refineEnv Hierarchical
        (TraverseNode 2 (Some True) [True] [readyChild]) False
      = \<lparr>rendered = [], queued = [(readyChild, False)]\<rparr>
   \<and> travDetermineMeta refineEnv unresolvedNode = None
   \<and> traverse refineEnv Hierarchical unresolvedNode False = \<lparr>rendered = [], queued = []\<rparr>"
proof -
  let ?a1 = "TraverseNode 3 (Some True) [] [pendingChild, TraverseNode 10 None [] []]"
  let ?a2 = "TraverseNode 3 (Some True) [True] [pendingChild, TraverseNode 10 None [] []]"
  let ?b = "TraverseNode 2 (Some True) [True] [readyChild]"
  have m0: "meta unresolvedNode = None" by (simp add: unresolvedNode_def)
  have m1: "travDetermineMeta metaEnv unresolvedNode = Some ?a1"
    by (simp add: metaEnv_def unresolvedNode_def)
  have m2: "travDetermineMeta refineEnv unresolvedNode = None"
    by (simp add: refineEnv_def)
  have ra: "resolveDraws metaEnv ?a1 = ?a2"
    by (simp add: resolveDraws_def metaEnv_def)
  have rb: "resolveDraws refineEnv ?b = ?b"
    by (simp add: resolveDraws_def)
  have ha: "(if meta unresolvedNode = None then travDetermineMeta metaEnv unresolvedNode
             else Some unresolvedNode) = Some ?a1
      \<and> visibilityTest metaEnv (resolveDraws metaEnv ?a1)
      \<and> \<not> coarsenessTest metaEnv (resolveDraws metaEnv ?a1)"
    using m0 m1 by (simp add: metaEnv_def)
  have hb: "(if meta ?b = None then travDetermineMeta refineEnv ?b else Some ?b) = Some ?b
      \<and> visibilityTest refineEnv (resolveDraws refineEnv ?b)
      \<and> \<not> coarsenessTest refineEnv (resolveDraws refineEnv ?b)"
    by (simp add: refineEnv_def)
  have pa: "\<exists>t\<in>set (childs (resolveDraws metaEnv ?a1)).
      meta t = None \<or> (meta t = Some True \<and> (renders t = [] \<or> \<not> node_ready t))"
    unfolding ra by (simp add: pendingChild_def)
  have pb: "childs (resolveDraws refineEnv ?b) \<noteq> []
      \<and> (\<forall>t\<in>set (childs (resolveDraws refineEnv ?b)).
         \<not> (meta t = None \<or> (meta t = Some True \<and> (renders t = [] \<or> \<not> node_ready t))))"
    unfolding rb by (simp add: readyChild_def node_ready_def)
  from traverse_hierarchical_refine
    [where env = metaEnv and trav = unresolvedNode and ?trav1.0 = ?a1,
      THEN conjunct2, THEN mp, OF ha, THEN conjunct1, THEN mp, OF pa]
  have ca: "traverse metaEnv Hierarchical unresolvedNode False
      = \<lparr>rendered = [?a2], queued = [(pendingChild, True), (TraverseNode 10 None [] [], True)]\<rparr>"
    unfolding ra by simp
  from traverse_hierarchical_refine
    [where env = refineEnv and trav = ?b and ?trav1.0 = ?b,
      THEN conjunct2, THEN mp, OF hb, THEN conjunct2, THEN conjunct1, THEN mp, OF pb]
  have cb: "traverse refineEnv Hierarchical ?b False
      = \<lparr>rendered = [], queued = [(readyChild, False)]\<rparr>"
    unfolding rb by simp
  from traverse_hierarchical_refine
    [where env = refineEnv and trav = unresolvedNode, THEN conjunct1, THEN mp, OF conjI, OF m0 m2]
  have cc: "traverse refineEnv Hierarchical unresolvedNode False = \<lparr>rendered = [], queued = []\<rparr>" .
  from m0 m1 m2 ca cb cc show ?thesis by blast
qed

text \<open>
  A leaf shows that the claim needs the amendment: none of its children is unready, as it
  has none, and the node is rendered.
\<close>

theorem traverse_leaf_counterexample:
  "meta leafNode \<noteq> None
   \<and> visibilityTest refineEnv (resolveDraws refineEnv leafNode)
   \<and> \<not> coarsenessTest refineEnv (resolveDraws refineEnv leafNode)
   \<and> list_all childOk (childs (resolveDraws refineEnv leafNode))
   \<and> rendered (traverse refineEnv Hierarchical leafNode False) = [leafNode]"
  by (simp add: leafNode_def refineEnv_def resolveDraws_def traverse_def
      traverseHierarchical_def)

section \<open>Lemmas on the resource map\<close>

lemma findRes_Some: "findRes n rs = Some r \<Longrightarrow> name r = n \<and> r \<in> set rs"
  by (induction rs) (auto simp: findRes_def split: if_splits)

lemma findRes_None: "findRes n rs = None \<longleftrightarrow> n \<notin> name ` set rs"
  by (induction rs) (auto simp: findRes_def)

lemma findRes_distinct:
  "distinct (map name rs) \<Longrightarrow> r \<in> set rs \<Longrightarrow> findRes (name r) rs = Some r"
  by (induction rs) (auto simp: findRes_def)

lemma findRes_storeRes:
  "findRes n (storeRes r rs) =
     (if n = name r then (if findRes n rs = None then None else Some r) else findRes n rs)"
  by (induction rs) (auto simp: findRes_def storeRes_def)

lemma findRes_eraseRes:
  "findRes n (eraseRes k rs) = (if n = k then None else findRes n rs)"
  by (induction rs) (auto simp: findRes_def eraseRes_def)

lemma findRes_append:
  "findRes n (rs @ [x]) =
     (case findRes n rs of Some r \<Rightarrow> Some r | None \<Rightarrow> if name x = n then Some x else None)"
  by (induction rs) (auto simp: findRes_def)

lemma names_storeRes: "map name (storeRes r rs) = map name rs"
  by (induction rs) (auto simp: storeRes_def)

lemma distinct_eraseRes: "distinct (map name rs) \<Longrightarrow> distinct (map name (eraseRes k rs))"
  by (simp add: eraseRes_def distinct_map_filter)

lemma set_storeRes:
  "set (storeRes r rs) \<subseteq> insert r (set rs)"
  by (auto simp: storeRes_def)

lemma set_eraseRes: "set (eraseRes k rs) = {x \<in> set rs. name x \<noteq> k}"
  by (auto simp: eraseRes_def)

section \<open>Lemmas on the eviction pass\<close>

lemma visited_prefix: "prefix (visited mx cs mu) cs"
  by (induction cs arbitrary: mu) auto

lemma set_visited: "set (visited mx cs mu) \<subseteq> set cs"
  using visited_prefix set_mono_prefix by blast

lemma visited_over_budget:
  "k < length (visited mx cs mu) \<Longrightarrow> mx < mu - costSum (take k cs)"
proof (induction cs arbitrary: mu k)
  case Nil
  then show ?case by simp
next
  case (Cons c cs)
  then have over: "\<not> mu \<le> mx" by (auto split: if_splits)
  show ?case
  proof (cases k)
    case 0
    then show ?thesis using over by (simp add: costSum_def)
  next
    case (Suc j)
    then have "j < length (visited mx cs (mu - (gpuMemoryCost c + ramMemoryCost c)))"
      using Cons.prems over by simp
    from Cons.IH [OF this] show ?thesis
      using Suc by (simp add: costSum_def totalCost_def diff_diff_eq)
  qed
qed

lemma visited_stops:
  "mu - costSum (visited mx cs mu) \<le> mx \<or> visited mx cs mu = cs"
proof (induction cs arbitrary: mu)
  case Nil
  then show ?case by simp
next
  case (Cons c cs)
  show ?case
  proof (cases "mu \<le> mx")
    case True
    then show ?thesis by (simp add: costSum_def)
  next
    case False
    then show ?thesis
      using Cons.IH [of "mu - (gpuMemoryCost c + ramMemoryCost c)"]
      by (auto simp: costSum_def totalCost_def diff_diff_eq)
  qed
qed


lemma evictLoop_distinct:
  "distinct (map name (resources m)) \<Longrightarrow> distinct (map name (resources (evictLoop cs mu m)))"
  by (induction cs mu m rule: evictLoop.induct)
     (auto simp: Let_def names_storeRes distinct_eraseRes)

text \<open>
  What the pass does to each entry of the map: a visited candidate is erased when it
  was already finalizing and marked finalizing otherwise; every other entry is kept as
  it is.
\<close>

lemma evictLoop_find:
  assumes "distinct (map name cs)"
      and "\<forall>it\<in>set cs. findRes (name it) (resources m) = Some it"
  shows "findRes n (resources (evictLoop cs mu m)) =
     (case findRes n (resources m) of
        None \<Rightarrow> None
      | Some r \<Rightarrow>
          if r \<in> set (visited (maxResourcesMemory m) cs mu)
          then (if state r = finalizing then None else Some (r\<lparr>state := finalizing\<rparr>))
          else Some r)"
  using assms
proof (induction cs arbitrary: mu m)
  case Nil
  then show ?case by (simp split: option.splits)
next
  case (Cons it cs)
  let ?mx = "maxResourcesMemory m"
  show ?case
  proof (cases "mu \<le> ?mx")
    case True
    then show ?thesis by (simp split: option.splits)
  next
    case False
    let ?mu = "mu - (gpuMemoryCost it + ramMemoryCost it)"
    let ?m1 = "if state it \<noteq> finalizing
      then m\<lparr>resources := storeRes (it\<lparr>state := finalizing\<rparr>) (resources m)\<rparr>
      else m\<lparr>resourcesReleased := resourcesReleased m + 1,
             resources := eraseRes (name it) (resources m)\<rparr>"
    have loop: "evictLoop (it # cs) mu m = evictLoop cs ?mu ?m1"
      using False by (simp add: Let_def)
    have mx1: "maxResourcesMemory ?m1 = ?mx" by simp
    have it: "findRes (name it) (resources m) = Some it" using Cons.prems(2) by simp
    have others: "\<forall>c\<in>set cs. name c \<noteq> name it"
      using Cons.prems(1) by (metis distinct.simps(2) image_eqI list.simps(9) set_map)
    have inv: "\<forall>c\<in>set cs. findRes (name c) (resources ?m1) = Some c"
      using Cons.prems(2) others by (auto simp: findRes_storeRes findRes_eraseRes)
    have d: "distinct (map name cs)" using Cons.prems(1) by simp
    have vis: "visited ?mx (it # cs) mu = it # visited ?mx cs ?mu" using False by simp
    have notin: "\<And>x. name x = name it \<Longrightarrow> x \<notin> set (visited ?mx cs ?mu)"
      using others set_visited [of ?mx cs ?mu] by auto
    show ?thesis
    proof (cases "n = name it")
      case True
      show ?thesis
        unfolding loop Cons.IH [OF d inv] mx1 vis
        using it True notin [of "it\<lparr>state := finalizing\<rparr>"]
        by (auto simp: findRes_storeRes findRes_eraseRes)
    next
      case False
      have same: "findRes n (resources ?m1) = findRes n (resources m)"
        using False by (auto simp: findRes_storeRes findRes_eraseRes)
      have "\<And>r. findRes n (resources m) = Some r \<Longrightarrow> r \<noteq> it"
        using False findRes_Some by blast
      then show ?thesis
        unfolding loop Cons.IH [OF d inv] mx1 vis same
        by (auto split: option.splits)
    qed
  qed
qed

section \<open>The eviction pass of \<^verbatim>\<open>dataRenderTick\<close>\<close>

lemma set_candidates:
  "set (candidates m) = {r \<in> set (resources m). evictable (frameIndex m) r}"
  by (auto simp: candidates_def set_std_sort)

lemma distinct_candidates:
  assumes "distinct (map name (resources m))"
  shows "distinct (map name (candidates m))"
proof -
  let ?f = "filter (evictable (frameIndex m)) (resources m)"
  have "mset (map name (candidates m)) = mset (map name ?f)"
    by (simp add: candidates_def mset_std_sort)
  moreover have "distinct (map name ?f)"
    using assms by (simp add: distinct_map_filter)
  ultimately show ?thesis
    by (metis mset_eq_imp_distinct_iff)
qed

lemma sorted_candidates: "sorted_wrt evictOrder (candidates m)"
  unfolding candidates_def
  by (rule sorted_wrt_std_sort)
     (auto simp: evictBefore_def evictOrder_def totalCost_def split: if_splits)

lemma grace_window_no_wrap:
  fixes t fi :: uint32
  assumes "unat t + 100 < 2 ^ 32"
  shows "t + 100 < fi \<longleftrightarrow> unat t + 100 < unat fi"
proof -
  have "unat (t + 100) = unat t + 100"
    using assms by (simp add: unat_word_ariths)
  then show ?thesis by (simp add: word_less_nat_alt)
qed

lemma candidates_find:
  assumes "distinct (map name (resources m))"
  shows "\<forall>it\<in>set (candidates m). findRes (name it) (resources m) = Some it"
  using assms by (simp add: set_candidates findRes_distinct)

lemma swap_queues [simp]:
  "candidates (m\<lparr>prepareQue := q, prepareQueNew := q'\<rparr>) = candidates m"
  "memUseOf (m\<lparr>prepareQue := q, prepareQueNew := q'\<rparr>) = memUseOf m"
  by (simp_all add: candidates_def memUseOf_def)

lemma visited_within_budget: "mu \<le> mx \<Longrightarrow> visited mx cs mu = []"
  by (cases cs) simp_all

text \<open>The effect of \<^verbatim>\<open>dataRenderTick\<close> on the entry of a name.\<close>

lemma dataRenderTick_find:
  assumes "distinct (map name (resources m))"
  shows "findRes n (resources (dataRenderTick m)) =
     (case findRes n (resources m) of
        None \<Rightarrow> None
      | Some r \<Rightarrow>
          if r \<in> set (processed m)
          then (if state r = finalizing then None else Some (r\<lparr>state := finalizing\<rparr>))
          else Some r)"
proof (cases "memUseOf m > maxResourcesMemory m")
  case True
  let ?m1 = "m\<lparr>prepareQue := prepareQueNew m, prepareQueNew := []\<rparr>"
  have "dataRenderTick m = evictLoop (candidates m) (memUseOf m) ?m1"
    using True by (simp add: dataRenderTick_def Let_def)
  moreover have "\<forall>it\<in>set (candidates m). findRes (name it) (resources ?m1) = Some it"
    using candidates_find [OF assms] by simp
  ultimately show ?thesis
    using evictLoop_find [OF distinct_candidates [OF assms], of ?m1 n "memUseOf m"]
    by (simp add: processed_def split: option.splits)
next
  case False
  then have "processed m = []"
    by (simp add: processed_def visited_within_budget)
  then show ?thesis
    using False by (simp add: dataRenderTick_def Let_def split: option.splits)
qed

text \<open>
  C4, amended.  Provided that \<open>lastAccessTick + 100\<close> does not overflow 32 bits for any
  resource, the eviction pass visits only resources that were last accessed more than 100
  ticks before the current frame, have a use count of 1 and are not downloading; the
  candidates are exactly these resources, ordered by access tick ascending and, for
  equal ticks, by cost descending; the pass visits a prefix of them, the accounted memory
  use being over the budget before each visit, and stops with the accounted use within
  the budget or with all candidates visited; a visited candidate is marked finalizing,
  or erased when it already was; every other resource, and so every resource accessed
  within the window, is left as it is.
\<close>

theorem dataRenderTick_eviction:
  assumes "distinct (map name (resources m))"
      and "\<forall>r\<in>set (resources m). unat (lastAccessTick r) + 100 < 2 ^ 32"
  shows "(\<forall>r\<in>set (processed m).
            r \<in> set (resources m) \<and> unat (lastAccessTick r) + 100 < unat (frameIndex m)
            \<and> use_count r = 1 \<and> state r \<noteq> downloading)
       \<and> set (candidates m) =
            {r \<in> set (resources m). unat (lastAccessTick r) + 100 < unat (frameIndex m)
               \<and> use_count r = 1 \<and> state r \<noteq> downloading}
       \<and> sorted_wrt evictOrder (candidates m)
       \<and> prefix (processed m) (candidates m)
       \<and> (\<forall>k<length (processed m).
            maxResourcesMemory m < memUseOf m - costSum (take k (candidates m)))
       \<and> (memUseOf m - costSum (processed m) \<le> maxResourcesMemory m
            \<or> processed m = candidates m)
       \<and> (\<forall>r\<in>set (processed m).
            findRes (name r) (resources (dataRenderTick m))
              = (if state r = finalizing then None else Some (r\<lparr>state := finalizing\<rparr>)))
       \<and> (\<forall>r\<in>set (resources m). r \<notin> set (processed m) \<longrightarrow>
            findRes (name r) (resources (dataRenderTick m)) = Some r)
       \<and> (\<forall>r\<in>set (resources m). unat (frameIndex m) \<le> unat (lastAccessTick r) + 100 \<longrightarrow>
            findRes (name r) (resources (dataRenderTick m)) = Some r)"
proof -
  have cand: "set (candidates m) =
      {r \<in> set (resources m). unat (lastAccessTick r) + 100 < unat (frameIndex m)
         \<and> use_count r = 1 \<and> state r \<noteq> downloading}"
    using assms(2) by (auto simp: set_candidates evictable_def grace_window_no_wrap)
  have sub: "set (processed m) \<subseteq> set (candidates m)"
    by (simp add: processed_def set_visited)
  have c1: "\<forall>r\<in>set (processed m).
      r \<in> set (resources m) \<and> unat (lastAccessTick r) + 100 < unat (frameIndex m)
      \<and> use_count r = 1 \<and> state r \<noteq> downloading"
    using sub cand by blast
  have c4: "prefix (processed m) (candidates m)"
    by (simp add: processed_def visited_prefix)
  have c5: "\<forall>k<length (processed m).
      maxResourcesMemory m < memUseOf m - costSum (take k (candidates m))"
    by (simp add: processed_def visited_over_budget)
  have c6: "memUseOf m - costSum (processed m) \<le> maxResourcesMemory m
      \<or> processed m = candidates m"
    unfolding processed_def by (rule visited_stops)
  have fr: "\<And>r. r \<in> set (resources m) \<Longrightarrow> findRes (name r) (resources m) = Some r"
    using assms(1) by (rule findRes_distinct)
  have c7: "\<forall>r\<in>set (processed m).
      findRes (name r) (resources (dataRenderTick m))
        = (if state r = finalizing then None else Some (r\<lparr>state := finalizing\<rparr>))"
    using c1 fr by (simp add: dataRenderTick_find [OF assms(1)])
  have c8: "\<forall>r\<in>set (resources m). r \<notin> set (processed m) \<longrightarrow>
      findRes (name r) (resources (dataRenderTick m)) = Some r"
    using fr by (simp add: dataRenderTick_find [OF assms(1)])
  have c9: "\<forall>r\<in>set (resources m). unat (frameIndex m) \<le> unat (lastAccessTick r) + 100 \<longrightarrow>
      findRes (name r) (resources (dataRenderTick m)) = Some r"
  proof (intro ballI impI)
    fix r
    assume r: "r \<in> set (resources m)"
      and w: "unat (frameIndex m) \<le> unat (lastAccessTick r) + 100"
    have "r \<notin> set (processed m)"
    proof
      assume "r \<in> set (processed m)"
      with c1 have "unat (lastAccessTick r) + 100 < unat (frameIndex m)" by blast
      with w show False by simp
    qed
    with c8 r show "findRes (name r) (resources (dataRenderTick m)) = Some r" by blast
  qed
  show ?thesis
    using c1 cand sorted_candidates c4 c5 c6 c7 c8 c9 by blast
qed

lemmas evict_eval =
  dataRenderTick_def candidates_def evictable_def memUseOf_def memRamUse_def memGpuUse_def
  processed_def evictBefore_def storeRes_def eraseRes_def findRes_def Let_def
  initial_def newResource_def

lemma evictMap_processed: "processed evictMap = [resB]"
  by (simp add: evict_eval evictMap_def resA_def resB_def resC_def)

lemma evictMap_tick:
  "resources (dataRenderTick evictMap) = [resA, resB\<lparr>state := finalizing\<rparr>, resC]"
  by (simp add: evict_eval evictMap_def resA_def resB_def resC_def)

theorem dataRenderTick_eviction_witness:
  "distinct (map name (resources evictMap))
   \<and> unat (lastAccessTick resA) + 100 < 2 ^ 32
   \<and> unat (lastAccessTick resB) + 100 < 2 ^ 32
   \<and> unat (lastAccessTick resC) + 100 < 2 ^ 32
   \<and> resB \<in> set (processed evictMap)
   \<and> unat (lastAccessTick resB) + 100 < unat (frameIndex evictMap)
   \<and> findRes (name resB) (resources (dataRenderTick evictMap)) = Some (resB\<lparr>state := finalizing\<rparr>)
   \<and> resA \<in> set (resources evictMap) \<and> resA \<notin> set (processed evictMap)
   \<and> findRes (name resA) (resources (dataRenderTick evictMap)) = Some resA
   \<and> resC \<in> set (resources evictMap)
   \<and> unat (frameIndex evictMap) \<le> unat (lastAccessTick resC) + 100
   \<and> findRes (name resC) (resources (dataRenderTick evictMap)) = Some resC"
proof -
  have rs: "resources evictMap = [resA, resB, resC]" by (simp add: evictMap_def)
  have d: "distinct (map name (resources evictMap))"
    by (simp add: rs resA_def resB_def resC_def newResource_def)
  have a: "unat (lastAccessTick resA) + 100 < 2 ^ 32"
    and b: "unat (lastAccessTick resB) + 100 < 2 ^ 32"
    and c: "unat (lastAccessTick resC) + 100 < 2 ^ 32"
    by (simp_all add: resA_def resB_def resC_def)
  have w: "\<forall>r\<in>set (resources evictMap). unat (lastAccessTick r) + 100 < 2 ^ 32"
    using a b c by (simp add: rs)
  note ev = dataRenderTick_eviction [OF d w]
  have pB: "resB \<in> set (processed evictMap)" by (simp add: evictMap_processed)
  have nA: "resA \<notin> set (processed evictMap)"
    by (simp add: evictMap_processed resA_def resB_def newResource_def)
  have iA: "resA \<in> set (resources evictMap)" and iC: "resC \<in> set (resources evictMap)"
    by (simp_all add: rs)
  have gC: "unat (frameIndex evictMap) \<le> unat (lastAccessTick resC) + 100"
    by (simp add: evictMap_def resC_def)
  have sB: "state resB \<noteq> finalizing" by (simp add: resB_def)
  from ev pB have 1: "unat (lastAccessTick resB) + 100 < unat (frameIndex evictMap)" by blast
  from ev pB sB
  have 2: "findRes (name resB) (resources (dataRenderTick evictMap))
      = Some (resB\<lparr>state := finalizing\<rparr>)" by simp
  from ev iA nA
  have 3: "findRes (name resA) (resources (dataRenderTick evictMap)) = Some resA" by blast
  from ev iC gC
  have 4: "findRes (name resC) (resources (dataRenderTick evictMap)) = Some resC" by blast
  from d a b c pB 1 2 iA nA 3 iC gC 4 show ?thesis by blast
qed

text \<open>
  Without the proviso the claim fails: at frame \<open>2^32 - 10\<close> a resource used 40 frames
  earlier passes the test \<open>lastAccessTick + 100 < frameIndex\<close>, the sum having wrapped
  to 50, and the pass marks it finalizing.
\<close>

theorem dataRenderTick_wrap_counterexample:
  "resources wrapMap = [wrapRes] \<and> state wrapRes = ready
   \<and> unat (frameIndex wrapMap) = unat (lastAccessTick wrapRes) + 40
   \<and> maxResourcesMemory wrapMap < memUseOf wrapMap
   \<and> resources (dataRenderTick wrapMap) = [wrapRes\<lparr>state := finalizing\<rparr>]"
  by (simp add: evict_eval wrapMap_def wrapRes_def)

section \<open>One operation on the cache\<close>

lemma stateOf_storeRes:
  "stateOf (m\<lparr>resources := storeRes r' (resources m0)\<rparr>) k =
     (if k = name r' \<and> findRes k (resources m0) \<noteq> None then Some (state r')
      else stateOf (m\<lparr>resources := resources m0\<rparr>) k)"
  by (auto simp: stateOf_def findRes_storeRes)

lemma loadResource_effect:
  "name (loadResource env r) = name r
   \<and> (state (loadResource env r) = ready \<or> state (loadResource env r) = errorLoad)"
  by (auto simp: loadResource_def split: option.splits)

text \<open>What \<^verbatim>\<open>dataTick\<close> does to the resource it has taken from the queue.\<close>

lemma dataTick_res_effect:
  assumes "dataTick_res env m r = (b, m2, r')"
  shows "name r' = name r \<and> resources m2 = resources m
       \<and> maxConcurrentDownloads m2 = maxConcurrentDownloads m
       \<and> (state r' = state r \<or> codeEdge (state r) (state r'))
       \<and> (state r' = finalizing \<longrightarrow> state r = finalizing)
       \<and> ((pending m2 = pending m \<and> downloads m2 = downloads m
            \<and> (state r = downloading \<longrightarrow> state r' = downloading))
          \<or> (pending m2 = pending m @ [name r] \<and> state r \<noteq> downloading
            \<and> state r' = downloading
            \<and> downloads m < maxConcurrentDownloads m \<and> downloads m2 = downloads m + 1))"
proof -
  note le = loadResource_effect
  consider (a) "state r = downloaded" | (b) "state r = initializing"
    | (c) "state r \<noteq> downloaded" "state r \<noteq> initializing" by blast
  then show ?thesis
  proof cases
    case a
    then have "r' = loadResource env r" "m2 = m" using assms by (auto simp: dataTick_res_def)
    then show ?thesis using a le [of env r] by (auto simp: codeEdge_def)
  next
    case b
    show ?thesis
    proof (cases "name r \<in> invalidUrl m")
      case True
      then have "r' = r\<lparr>state := errorLoad\<rparr>" "m2 = m"
        using assms b by (auto simp: dataTick_res_def)
      then show ?thesis using b by (simp add: codeEdge_def)
    next
      case False
      note nb = False
      show ?thesis
      proof (cases "\<not> contains (name r) ''://''")
        case True
        let ?r = "r\<lparr>state := downloading, contentData := internalMemory env (name r)\<rparr>"
        have "r' = loadResource env ?r" "m2 = m"
          using assms b nb True by (auto simp: dataTick_res_def Let_def)
        then show ?thesis using b le [of env ?r] by (auto simp: codeEdge_def)
      next
        case False
        note url = False
        let ?q = "if contains (name r) ''.json'' then Inr False
                  else availableInCache m (name r)"
        have body: "dataTick_res env m r =
            (case ?q of
               Inl e \<Rightarrow> (Inl e, m, r\<lparr>state := downloading\<rparr>)
             | Inr True \<Rightarrow>
                 (Inr False, m,
                  loadResource env
                    (r\<lparr>state := downloading, contentData := cacheContent env (name r)\<rparr>))
             | Inr False \<Rightarrow>
                 if downloads m < maxConcurrentDownloads m
                 then (Inr False,
                       (fetcherFetch m (r\<lparr>state := downloading\<rparr>))\<lparr>downloads := downloads m + 1\<rparr>,
                       r\<lparr>state := downloading\<rparr>)
                 else (Inr True, m, r\<lparr>state := downloading, state := initializing\<rparr>))"
          using b nb url
          by (auto simp: dataTick_res_def Let_def split: sum.splits bool.splits)
        show ?thesis
        proof (cases ?q)
          case (Inl e)
          then have "r' = r\<lparr>state := downloading\<rparr>" "m2 = m"
            using assms unfolding body by simp_all
          then show ?thesis using b by (simp add: codeEdge_def)
        next
          case (Inr c)
          show ?thesis
          proof (cases c)
            case True
            let ?r = "r\<lparr>state := downloading, contentData := cacheContent env (name r)\<rparr>"
            have "r' = loadResource env ?r" "m2 = m"
              using assms Inr True unfolding body by simp_all
            then show ?thesis using b le [of env ?r] by (auto simp: codeEdge_def)
          next
            case False
            note nc = False
            show ?thesis
            proof (cases "downloads m < maxConcurrentDownloads m")
              case True
              have "r' = r\<lparr>state := downloading\<rparr>"
                "m2 = m\<lparr>fetcher := fetcher m @ [url r], pending := pending m @ [name r],
                       downloads := downloads m + 1\<rparr>"
                using assms Inr nc True unfolding body by (simp_all add: fetcherFetch_def)
              then show ?thesis using b True by (simp add: codeEdge_def)
            next
              case False
              have "r' = r\<lparr>state := initializing\<rparr>" "m2 = m"
                using assms Inr nc False unfolding body by simp_all
              then show ?thesis using b by simp
            qed
          qed
        qed
      qed
    qed
  next
    case c
    then have "r' = r" "m2 = m" using assms by (auto simp: dataTick_res_def)
    then show ?thesis by simp
  qed
qed

text \<open>What \<^verbatim>\<open>fetchedFile\<close> does to a downloading resource.\<close>

lemma fetchedFile_effect:
  assumes "state r = downloading" "fetchedFile m r = (e, m1, r1)"
  shows "name r1 = name r \<and> resources m1 = resources m
       \<and> maxConcurrentDownloads m1 = maxConcurrentDownloads m
       \<and> (state r1 = downloading \<or> state r1 = downloaded \<or> state r1 = errorDownload)
       \<and> ((pending m1 = pending m @ [name r] \<and> state r1 = downloading
            \<and> downloads m1 = downloads m)
          \<or> (pending m1 = pending m
            \<and> (downloads m1 = downloads m - 1 \<or> downloads m1 = downloads m)))"
proof -
  let ?h = "handleErrorCodes r"
  have h: "name ?h = name r \<and> (state ?h = downloading \<or> state ?h = errorDownload)"
    using assms(1) by (simp add: handleErrorCodes_def)
  obtain e2 r2 where a: "availabilityTests ?h = (e2, r2)"
    by (cases "availabilityTests ?h") auto
  have a2: "name r2 = name r \<and> (state r2 = downloading \<or> state r2 = errorDownload)"
    using a h by (auto simp: availabilityTests_def
        split: option.splits if_splits AvailabilityType.splits)
  show ?thesis
  proof (cases e2)
    case (Some x)
    then have "m1 = m" "r1 = r2" using assms(2) a by (auto simp: fetchedFile_def)
    then show ?thesis using a2 by auto
  next
    case None
    then have "handleRedirections m r2 = (m1, r1)"
      using assms(2) a by (auto simp: fetchedFile_def)
    then show ?thesis
      using a2 by (auto simp: handleRedirections_def fetchedFile_finish_def fetcherFetch_def
          Let_def split: if_splits)
  qed
qed

lemma touch_effect:
  "name (touch fi r) = name r
   \<and> state (touch fi r) = (if state r = finalizing then initializing else state r)"
  by (simp add: touch_def Let_def)

lemma takeItem_fields:
  assumes "takeItem m = (x, m1)"
  shows "resources m1 = resources m \<and> downloads m1 = downloads m
       \<and> maxConcurrentDownloads m1 = maxConcurrentDownloads m
       \<and> invalidUrl m1 = invalidUrl m \<and> cacheFiles m1 = cacheFiles m
       \<and> pending m1 = pending m \<and> prepareQueNew m1 = prepareQueNew m"
  using assms by (auto simp: takeItem_def Let_def split: if_splits)

lemma dataTick_step:
  "idleStep m (snd (dataTick env m)) \<or> (\<exists>r r'. resourceStep m (snd (dataTick env m)) r r')"
proof -
  let ?s = "syncInvalidUrls m"
  obtain x m1 where t: "takeItem ?s = (x, m1)" by (cases "takeItem ?s") auto
  have f1: "resources m1 = resources m \<and> downloads m1 = downloads m
      \<and> pending m1 = pending m
      \<and> maxConcurrentDownloads m1 = maxConcurrentDownloads m"
    using takeItem_fields [OF t] by (simp add: syncInvalidUrls_def)
  show ?thesis
  proof (cases x)
    case None
    then have "snd (dataTick env m) = m1" using t by (simp add: dataTick_def)
    then show ?thesis using f1 by (simp add: idleStep_def)
  next
    case (Some n)
    show ?thesis
    proof (cases "findRes n (resources m1)")
      case None
      then have "snd (dataTick env m) = m1" using t Some by (simp add: dataTick_def)
      then show ?thesis using f1 by (simp add: idleStep_def)
    next
      case (Some r)
      note r = Some
      obtain b m2 r' where d: "dataTick_res env m1 r = (b, m2, r')"
        by (cases "dataTick_res env m1 r") auto
      have res: "snd (dataTick env m) = m2\<lparr>resources := storeRes r' (resources m2)\<rparr>"
        using t \<open>x = Some n\<close> r d by (simp add: dataTick_def)
      have nr: "name r = n" using findRes_Some [OF r] by simp
      have "resourceStep m (snd (dataTick env m)) r r'"
        unfolding resourceStep_def res
        using dataTick_res_effect [OF d] f1 r nr by auto
      then show ?thesis by blast
    qed
  qed
qed

lemma fetched_step:
  "idleStep m (snd (fetched m n c ct cd ru))
   \<or> (\<exists>r r'. resourceStep m (snd (fetched m n c ct cd ru)) r r')"
proof (cases "findRes n (resources m)")
  case None
  then show ?thesis by (simp add: fetched_def idleStep_def)
next
  case (Some r)
  show ?thesis
  proof (cases "state r = downloading \<and> n \<in> set (pending m)")
    case False
    then show ?thesis using Some by (auto simp: fetched_def idleStep_def)
  next
    case True
    let ?r = "reply c ct cd ru r"
    let ?m = "m\<lparr>pending := remove1 n (pending m)\<rparr>"
    have sr: "state ?r = downloading" "name ?r = name r"
      using True by (simp_all add: reply_def)
    obtain e m1 r1 where f: "fetchedFile ?m ?r = (e, m1, r1)"
      by (cases "fetchedFile ?m ?r") auto
    have res: "snd (fetched m n c ct cd ru) = m1\<lparr>resources := storeRes r1 (resources m1)\<rparr>"
      using Some True f by (simp add: fetched_def)
    have nr: "name r = n" using findRes_Some [OF Some] by simp
    have eff: "name r1 = n \<and> resources m1 = resources m
        \<and> maxConcurrentDownloads m1 = maxConcurrentDownloads m
        \<and> (state r1 = downloading \<or> state r1 = downloaded \<or> state r1 = errorDownload)
        \<and> ((pending m1 = remove1 n (pending m) @ [n] \<and> state r1 = downloading
             \<and> downloads m1 = downloads m)
           \<or> (pending m1 = remove1 n (pending m)
             \<and> (downloads m1 = downloads m - 1 \<or> downloads m1 = downloads m)))"
      using fetchedFile_effect [OF sr(1) f] sr(2) nr by simp
    have st: "state r = downloading" and pn: "n \<in> set (pending m)" using True by simp_all
    have "resourceStep m (snd (fetched m n c ct cd ru)) r r1"
      unfolding resourceStep_def res
      using eff Some nr st pn by (auto simp: codeEdge_def)
    then show ?thesis by blast
  qed
qed

lemma touchResource_step:
  "idleStep m (touchResource m n) \<or> (\<exists>r r'. resourceStep m (touchResource m n) r r')"
proof (cases "findRes n (resources m)")
  case None
  then show ?thesis by (simp add: touchResource_def idleStep_def)
next
  case (Some r)
  have nr: "name r = n" using findRes_Some [OF Some] by simp
  have "resourceStep m (touchResource m n) r (touch (frameIndex m) r)"
    unfolding resourceStep_def
    using Some nr touch_effect [of "frameIndex m" r]
    by (auto simp: touchResource_def Let_def codeEdge_def)
  then show ?thesis by blast
qed

text \<open>What a step on one resource means for the states and for the invariant.\<close>

lemma resourceStep_stateOf:
  assumes "resourceStep m m' r r'"
  shows "stateOf m' k = (if k = name r then Some (state r') else stateOf m k)"
    and "stateOf m (name r) = Some (state r)"
  using assms by (auto simp: resourceStep_def stateOf_def findRes_storeRes)



lemma idleStep_stateOf: "idleStep m m' \<Longrightarrow> stateOf m' k = stateOf m k"
  by (simp add: idleStep_def stateOf_def)

section \<open>The eviction pass as a step of a run\<close>

lemma processed_candidates: "set (processed m) \<subseteq> set (candidates m)"
  by (simp add: processed_def set_visited)


lemma dataRenderTick_distinct:
  "distinct (map name (resources m)) \<Longrightarrow> distinct (map name (resources (dataRenderTick m)))"
  by (simp add: dataRenderTick_def Let_def evictLoop_distinct)

text \<open>The state of a name after the pass.\<close>

lemma dataRenderTick_stateOf:
  assumes "distinct (map name (resources m))" "findRes k (resources m) = Some r"
  shows "stateOf (dataRenderTick m) k =
     (if r \<in> set (processed m)
      then (if state r = finalizing then None else Some finalizing)
      else Some (state r))"
  using assms by (simp add: stateOf_def dataRenderTick_find)

lemma processed_not_downloading: "r \<in> set (processed m) \<Longrightarrow> state r \<noteq> downloading"
  using processed_candidates [of m] by (auto simp: set_candidates evictable_def)



section \<open>Every operation as a step of a run\<close>



lemma step_distinct:
  assumes "idleStep m m' \<or> (\<exists>r r'. resourceStep m m' r r')"
      and "distinct (map name (resources m))"
  shows "distinct (map name (resources m'))"
  using assms by (auto simp: idleStep_def resourceStep_def names_storeRes)

lemma step_edge:
  assumes "idleStep m m' \<or> (\<exists>r r'. resourceStep m m' r r')"
      and "stateOf m k = Some s" "stateOf m' k = Some t"
  shows "t = s \<or> codeEdge s t"
  using assms(1)
proof
  assume "idleStep m m'"
  then show ?thesis using assms(2,3) by (simp add: idleStep_stateOf)
next
  assume "\<exists>r r'. resourceStep m m' r r'"
  then obtain r r' where st: "resourceStep m m' r r'" by blast
  have e: "state r' = state r \<or> codeEdge (state r) (state r')"
    using st by (simp add: resourceStep_def)
  show ?thesis
    using resourceStep_stateOf(1) [OF st, of k] resourceStep_stateOf(2) [OF st] assms(2,3) e by (auto split: if_splits)
qed

text \<open>A step on one resource neither erases a name nor makes a resource finalizing.\<close>

lemma step_alive:
  assumes "idleStep m m' \<or> (\<exists>r r'. resourceStep m m' r r')"
  shows "(stateOf m k = None \<longleftrightarrow> stateOf m' k = None)
       \<and> (stateOf m' k = Some finalizing \<longrightarrow> stateOf m k = Some finalizing)"
  using assms
proof
  assume "idleStep m m'"
  then show ?thesis by (simp add: idleStep_stateOf)
next
  assume "\<exists>r r'. resourceStep m m' r r'"
  then obtain r r' where st: "resourceStep m m' r r'" by blast
  have e: "state r' = finalizing \<longrightarrow> state r = finalizing"
    using st by (simp add: resourceStep_def)
  show ?thesis
    using resourceStep_stateOf(1) [OF st, of k] resourceStep_stateOf(2) [OF st] e by (auto split: if_splits)
qed

lemma touchResource_stateOf:
  "stateOf (touchResource m n) n =
     map_option (\<lambda>s. if s = finalizing then initializing else s) (stateOf m n)"
proof (cases "findRes n (resources m)")
  case None
  then show ?thesis by (simp add: touchResource_def stateOf_def)
next
  case (Some r)
  have "name r = n" using findRes_Some [OF Some] by simp
  then show ?thesis
    using Some touch_effect [of "frameIndex m" r]
    by (simp add: touchResource_def stateOf_def Let_def findRes_storeRes)
qed

text \<open>Creation of a resource by \<^verbatim>\<open>getMapResource\<close>.\<close>

lemma create_stateOf:
  assumes "findRes n (resources m) = None"
  shows "stateOf (m\<lparr>resources := resources m @ [newResource n]\<rparr>) k =
     (if k = n then Some initializing else stateOf m k)"
  using assms by (auto simp: stateOf_def findRes_append newResource_def split: option.splits)


lemma create_distinct:
  assumes "findRes n (resources m) = None" "distinct (map name (resources m))"
  shows "distinct (map name (resources m @ [newResource n]))"
proof -
  have "n \<notin> name ` set (resources m)" using assms(1) by (simp add: findRes_None)
  then show ?thesis using assms(2) by (simp add: newResource_def)
qed

lemma getMapResource_eq:
  "getMapResource m n =
     touchResource (if findRes n (resources m) = None
                    then m\<lparr>resources := resources m @ [newResource n]\<rparr> else m) n"
  by (simp add: getMapResource_def split: option.splits)

text \<open>A holder changing the use count.\<close>

lemma hold_names:
  "map name (map (\<lambda>r. if name r = n then r\<lparr>use_count := c\<rparr> else r) rs) = map name rs"
  by (induction rs) auto

lemma hold_find:
  "map_option state (findRes k (map (\<lambda>r. if name r = n then r\<lparr>use_count := c\<rparr> else r) rs))
     = map_option state (findRes k rs)"
  by (induction rs) (auto simp: findRes_def)

lemma hold_resources:
  "resources (exec env (Hold n c) m)
     = map (\<lambda>r. if name r = n then r\<lparr>use_count := c\<rparr> else r) (resources m)"
  by simp

lemma exec_step:
  assumes "op = DataTick \<or> (\<exists>n c ct cd ru. op = Fetched n c ct cd ru) \<or> (\<exists>n. op = Touch n)"
  shows "idleStep m (exec env op m) \<or> (\<exists>r r'. resourceStep m (exec env op m) r r')"
  using assms
  by (elim disjE exE) (simp_all add: dataTick_step fetched_step touchResource_step)

lemma exec_distinct:
  assumes "distinct (map name (resources m))"
  shows "distinct (map name (resources (exec env op m)))"
proof (cases op)
  case DataTick
  then show ?thesis using step_distinct [OF exec_step assms] by blast
next
  case (Fetched n c ct cd ru)
  then show ?thesis using step_distinct [OF exec_step assms] by blast
next
  case (Touch n)
  then show ?thesis using step_distinct [OF exec_step assms] by blast
next
  case (Get n)
  let ?m1 = "if findRes n (resources m) = None
             then m\<lparr>resources := resources m @ [newResource n]\<rparr> else m"
  have "distinct (map name (resources ?m1))"
    using assms create_distinct [of n m] by auto
  then show ?thesis
    using Get step_distinct [OF touchResource_step [of ?m1 n]]
    by (simp add: getMapResource_eq)
next
  case RenderTick
  then show ?thesis using assms by (simp add: dataRenderTick_distinct)
next
  case (Frame f)
  then show ?thesis using assms by simp
next
  case (Hold n c)
  show ?thesis unfolding Hold hold_resources hold_names by (rule assms)
qed


text \<open>No operation but the eviction pass erases a name or makes a resource finalizing.\<close>

lemma exec_alive:
  assumes "op \<noteq> RenderTick"
  shows "(stateOf m k \<noteq> None \<longrightarrow> stateOf (exec env op m) k \<noteq> None)
       \<and> (stateOf (exec env op m) k = Some finalizing \<longrightarrow> stateOf m k = Some finalizing)"
proof -
  consider (one) "op = DataTick \<or> (\<exists>n c ct cd ru. op = Fetched n c ct cd ru) \<or> (\<exists>n. op = Touch n)"
    | (get) n where "op = Get n" | (frame) f where "op = Frame f"
    | (hold) n c where "op = Hold n c"
    using assms by (cases op) auto
  then show ?thesis
  proof cases
    case one
    from step_alive [OF exec_step [OF one, where m = m and env = env], where k = k]
    show ?thesis by simp
  next
    case get
    let ?m1 = "if findRes n (resources m) = None
               then m\<lparr>resources := resources m @ [newResource n]\<rparr> else m"
    have a: "stateOf m k \<noteq> None \<longrightarrow> stateOf ?m1 k \<noteq> None"
      using create_stateOf [of n m k] by auto
    have b: "stateOf ?m1 k = Some finalizing \<longrightarrow> stateOf m k = Some finalizing"
      using create_stateOf [of n m k] by (auto split: if_splits)
    show ?thesis
      using get a b step_alive [OF touchResource_step [of ?m1 n], of k]
      by (simp add: getMapResource_eq)
  next
    case frame
    then show ?thesis by (simp add: stateOf_def)
  next
    case hold
    then show ?thesis using hold_find [of k n c "resources m"] by (simp add: stateOf_def)
  qed
qed

lemma run_append: "run env (ops1 @ ops2) m = run env ops2 (run env ops1 m)"
  by (induction ops1 arbitrary: m) auto

lemma run_distinct:
  "distinct (map name (resources m)) \<Longrightarrow> distinct (map name (resources (run env ops m)))"
  by (induction ops arbitrary: m) (auto simp: exec_distinct)

lemma run_alive:
  assumes "RenderTick \<notin> set ops"
  shows "(stateOf m k \<noteq> None \<longrightarrow> stateOf (run env ops m) k \<noteq> None)
       \<and> (stateOf (run env ops m) k = Some finalizing \<longrightarrow> stateOf m k = Some finalizing)"
  using assms
proof (induction ops arbitrary: m)
  case Nil
  then show ?case by simp
next
  case (Cons op ops)
  then have "op \<noteq> RenderTick" "RenderTick \<notin> set ops" by auto
  then show ?case
    using exec_alive [of op m k env] Cons.IH [of "exec env op m"] by auto
qed



section \<open>The transitions of a resource\<close>

lemma evicted_edge:
  assumes "s \<noteq> downloading" "s \<noteq> finalizing"
  shows "codeEdge s finalizing"
  using assms by (cases s) (simp_all add: codeEdge_def)

text \<open>
  C1, amended.  Whatever the operation (\<^verbatim>\<open>dataTick\<close> with \<^verbatim>\<open>loadResource\<close>, the
  completion of a fetch, \<^verbatim>\<open>touchResource\<close>, \<^verbatim>\<open>getMapResource\<close>, the eviction pass, a
  new frame, a holder taking or dropping a reference), the state a resource has after
  the operation is the state it had before or is reached from it by one of these edges:
  the edges of the graph of section 4.3, initializing to ready, initializing to
  finalizing, and downloaded to finalizing.
\<close>

theorem exec_follows_edges:
  assumes "distinct (map name (resources m))"
      and "stateOf m k = Some s"
      and "stateOf (exec env op m) k = Some t"
  shows "t = s \<or> codeEdge s t"
proof -
  consider (one) "op = DataTick \<or> (\<exists>n c ct cd ru. op = Fetched n c ct cd ru) \<or> (\<exists>n. op = Touch n)"
    | (get) n where "op = Get n" | (tick) "op = RenderTick" | (frame) f where "op = Frame f"
    | (hold) n c where "op = Hold n c"
    by (cases op) auto
  then show ?thesis
  proof cases
    case one
    from step_edge [OF exec_step [OF one, where m = m and env = env] assms(2,3)]
    show ?thesis .
  next
    case get
    let ?m1 = "if findRes n (resources m) = None
               then m\<lparr>resources := resources m @ [newResource n]\<rparr> else m"
    have "stateOf ?m1 k = Some s"
    proof (cases "findRes n (resources m) = None")
      case True
      then have "k \<noteq> n" using assms(2) by (auto simp: stateOf_def)
      then show ?thesis using True assms(2) create_stateOf [OF True, of k] by simp
    next
      case False
      then obtain y where "findRes n (resources m) = Some y" by auto
      then show ?thesis using assms(2) by simp
    qed
    moreover have "stateOf (touchResource ?m1 n) k = Some t"
      using assms(3) get by (simp add: getMapResource_eq)
    ultimately show ?thesis
      using step_edge [OF touchResource_step [of ?m1 n]] by blast
  next
    case tick
    obtain r where r: "findRes k (resources m) = Some r" "state r = s"
      using assms(2) by (auto simp: stateOf_def)
    have t: "stateOf (dataRenderTick m) k = Some t" using assms(3) tick by simp
    show ?thesis
    proof (cases "r \<in> set (processed m)")
      case True
      then have "t = finalizing" "s \<noteq> finalizing"
        using t r dataRenderTick_stateOf [OF assms(1) r(1)] by (auto split: if_splits)
      moreover have "s \<noteq> downloading" using processed_not_downloading [OF True] r(2) by simp
      ultimately show ?thesis using evicted_edge by simp
    next
      case False
      then show ?thesis using t r dataRenderTick_stateOf [OF assms(1) r(1)] by simp
    qed
  next
    case frame
    then have "stateOf (exec env op m) k = stateOf m k" by (simp add: stateOf_def)
    then show ?thesis using assms(2,3) by simp
  next
    case hold
    then have "stateOf (exec env op m) k = stateOf m k"
      using hold_find [of k n c "resources m"] by (simp add: stateOf_def)
    then show ?thesis using assms(2,3) by simp
  qed
qed

lemma internalMap_loaded:
  "stateOf internalMap ''data/meshes/sphere.obj'' = Some initializing
   \<and> stateOf (exec acceptEnv DataTick internalMap) ''data/meshes/sphere.obj'' = Some ready"
  by code_simp

theorem exec_follows_edges_witness:
  "distinct (map name (resources internalMap))
   \<and> stateOf internalMap ''data/meshes/sphere.obj'' = Some initializing
   \<and> stateOf (exec acceptEnv DataTick internalMap) ''data/meshes/sphere.obj'' = Some ready
   \<and> (ready = initializing \<or> codeEdge initializing ready)"
proof -
  have d: "distinct (map name (resources internalMap))" by code_simp
  have a: "stateOf internalMap ''data/meshes/sphere.obj'' = Some initializing"
    and b: "stateOf (exec acceptEnv DataTick internalMap) ''data/meshes/sphere.obj'' = Some ready"
    using internalMap_loaded by simp_all
  from exec_follows_edges [OF d a b] d a b show ?thesis by blast
qed

text \<open>
  The graph of section 4.3 alone is not respected: one \<^verbatim>\<open>dataTick\<close> takes a resource kept
  in internal memory from initializing to ready, which is no edge of the graph.
\<close>

theorem dataTick_skips_downloaded_counterexample:
  "stateOf internalMap ''data/meshes/sphere.obj'' = Some initializing
   \<and> stateOf (exec acceptEnv DataTick internalMap) ''data/meshes/sphere.obj'' = Some ready
   \<and> ready \<noteq> initializing \<and> \<not> specEdge initializing ready"
  using internalMap_loaded by simp

section \<open>Two-phase eviction\<close>

lemma dataRenderTick_erases_finalizing:
  assumes "distinct (map name (resources m))"
      and "stateOf m k \<noteq> None" "stateOf (dataRenderTick m) k = None"
  shows "stateOf m k = Some finalizing"
proof -
  obtain r where r: "findRes k (resources m) = Some r"
    using assms(2) by (auto simp: stateOf_def)
  show ?thesis
    using assms(3) r dataRenderTick_stateOf [OF assms(1) r]
    by (auto simp: stateOf_def split: if_splits)
qed

text \<open>
  C5.  Let the eviction pass of one tick set the state of a resource to finalizing.  A
  touch then sets it back to initializing.  If the resource is touched before the next
  pass, whatever else the data thread, the fetcher, the traversal and the holders do in
  between, the next pass does not erase it from the resource map.  A pass erases a
  resource only when it finds it already finalizing.
\<close>

theorem touched_resource_survives:
  assumes "distinct (map name (resources m0))"
      and "stateOf m0 n \<noteq> Some finalizing"
      and "stateOf (dataRenderTick m0) n = Some finalizing"
      and "RenderTick \<notin> set ops1" "RenderTick \<notin> set ops2"
  shows "stateOf (touchResource (dataRenderTick m0) n) n = Some initializing
       \<and> stateOf (dataRenderTick (run env (ops1 @ Touch n # ops2) (dataRenderTick m0))) n \<noteq> None
       \<and> (\<forall>m k. distinct (map name (resources m)) \<and> stateOf m k \<noteq> None
              \<and> stateOf (dataRenderTick m) k = None \<longrightarrow> stateOf m k = Some finalizing)"
proof -
  let ?m1 = "dataRenderTick m0"
  let ?m2 = "run env ops1 ?m1"
  let ?m3 = "exec env (Touch n) ?m2"
  let ?m4 = "run env ops2 ?m3"
  have c1: "stateOf (touchResource ?m1 n) n = Some initializing"
    using assms(3) by (simp add: touchResource_stateOf)
  have "stateOf ?m2 n \<noteq> None"
    using run_alive [OF assms(4), of ?m1 n env] assms(3) by simp
  then have "stateOf ?m3 n \<noteq> None \<and> stateOf ?m3 n \<noteq> Some finalizing"
    by (auto simp: touchResource_stateOf)
  then have alive: "stateOf ?m4 n \<noteq> None \<and> stateOf ?m4 n \<noteq> Some finalizing"
    using run_alive [OF assms(5), of ?m3 n env] by auto
  have d: "distinct (map name (resources ?m4))"
    using assms(1) by (intro run_distinct exec_distinct dataRenderTick_distinct)
  have m4: "run env (ops1 @ Touch n # ops2) ?m1 = ?m4" by (simp add: run_append)
  have c2: "stateOf (dataRenderTick ?m4) n \<noteq> None"
    using dataRenderTick_erases_finalizing [OF d, of n] alive by blast
  show ?thesis
    unfolding m4 using c1 c2 dataRenderTick_erases_finalizing by blast
qed

theorem touched_resource_survives_witness:
  "distinct (map name (resources evictMap))
   \<and> stateOf evictMap ''http://t/b'' \<noteq> Some finalizing
   \<and> stateOf (dataRenderTick evictMap) ''http://t/b'' = Some finalizing
   \<and> RenderTick \<notin> set [DataTick] \<and> RenderTick \<notin> set [Frame 1001]
   \<and> stateOf (touchResource (dataRenderTick evictMap) ''http://t/b'') ''http://t/b''
        = Some initializing
   \<and> stateOf (dataRenderTick (run acceptEnv ([DataTick] @ Touch ''http://t/b'' # [Frame 1001])
                 (dataRenderTick evictMap))) ''http://t/b'' \<noteq> None"
proof -
  have d: "distinct (map name (resources evictMap))" by code_simp
  have a: "stateOf evictMap ''http://t/b'' \<noteq> Some finalizing" by code_simp
  have b: "stateOf (dataRenderTick evictMap) ''http://t/b'' = Some finalizing" by code_simp
  have o1: "RenderTick \<notin> set [DataTick]" and o2: "RenderTick \<notin> set [Frame 1001]"
    by simp_all
  from touched_resource_survives [OF d a b o1 o2, of acceptEnv] d a b o1 o2
  show ?thesis by blast
qed

section \<open>The download gate\<close>




text \<open>A run of the data thread on an empty queue changes no resource and issues no fetch.\<close>

lemma dataTick_idle:
  assumes "prepareQue m = []"
  shows "resources (snd (dataTick env m)) = resources m
       \<and> fetcher (snd (dataTick env m)) = fetcher m
       \<and> prepareQue (snd (dataTick env m)) = []"
  using assms by (simp add: dataTick_def takeItem_def syncInvalidUrls_def)







text \<open>
  The fetches in flight are not the resources in state \<open>downloading\<close>: for a name that
  ends with \<^verbatim>\<open>://\<close> the cache lookup raises \<^verbatim>\<open>std::out_of_range\<close> after the state has
  been set, and the resource stays downloading with no fetch issued and no slot taken.
  Two such resources exceed a limit of one.
\<close>

lemma dataTick_res_out_of_range:
  assumes "state r = initializing" "name r \<notin> invalidUrl m" "contains (name r) ''://''"
      and "\<not> contains (name r) ''.json''" "afterScheme (name r) = []"
  shows "dataTick_res env m r = (Inl out_of_range, m, r\<lparr>state := downloading\<rparr>)"
  using assms
  by (simp add: dataTick_res_def Let_def availableInCache_def convertNameToCache_def)

lemma schemeOnly_downloading:
  "length (filter (\<lambda>r. state r = downloading) (resources schemeOnly)) = 2
   \<and> maxConcurrentDownloads schemeOnly = 1
   \<and> inFlight schemeOnly = 0 \<and> downloads schemeOnly = 0 \<and> fetcher schemeOnly = []"
  by code_simp

end
